theory Spec2Isabelle
  imports Complex_Main "HOL-Library.Sublist"
begin

section \<open>The ASCII video player \<open>acvp.py\<close>\<close>

text \<open>
  The program is one Python function, \<open>video_to_ascii_cli(video_path, columns=80)\<close>, and
  the script entry point that calls it. Everything the function does goes through
  external libraries (OpenCV, ascii_magic, moviepy, playsound3, \<open>time\<close>, \<open>os\<close>). The
  embedding keeps the control flow of the function as it is written and takes the answers
  of the libraries from an environment: what each \<open>cap.read()\<close> returns, what each
  \<open>time.time()\<close> returns, which external call raises which exception.

  Conventions.
  \<^item> Python floats are rationals. The time stamps and the frame delay are exact:
    rounding, infinities and NaN are not modelled there. The resize arithmetic of lines
    172 to 174 is rounded as IEEE 754 doubles round it: each operation yields the nearest
    number with a significand of 53 bits, ties going to the even significand
    (\<open>to_double\<close>). The exponent range is not bounded, so there is no overflow and
    there are no subnormal numbers; frame dimensions are far from both.
  \<^item> An exception is a value of \<open>py_exc\<close>; \<open>KeyboardInterrupt\<close> is the one that is
    not a subclass of \<open>Exception\<close>, so \<open>except Exception\<close> does not catch it.
  \<^item> The effects of a run are recorded as a chronological list of events.
  \<^item> \<open>cap.isOpened()\<close> answers \<open>True\<close> from a successful open until \<open>cap.release()\<close>.
\<close>

subsection \<open>Exceptions, frames, events\<close>

datatype py_exc = AttributeError | OtherException | KeyboardInterrupt

definition is_Exception :: "py_exc \<Rightarrow> bool" where
  "is_Exception e = (e \<noteq> KeyboardInterrupt)"

text \<open>
  A frame as \<open>cap.read()\<close> returns it: its \<open>shape[:2]\<close>, and how the library calls made
  while this frame is processed answer (\<open>None\<close>: the call returns normally).
\<close>

record frame =
  height :: int
  width :: int
  resize_raises :: "py_exc option"
  from_array_raises :: "py_exc option"
  imwrite_raises :: "py_exc option"
  from_image_raises :: "py_exc option"
  to_terminal_raises :: "py_exc option"

text \<open>One call of \<open>cap.read()\<close>: \<open>(True, frame)\<close>, \<open>(False, None)\<close>, or an exception.\<close>

datatype read_outcome = Got frame | NoFrame | ReadRaises py_exc

text \<open>
  The two audio files the program may create under \<open>Temp/\<close>: \<open><name>_audio.mp3\<close> and
  the same path with \<open>.mp3\<close> replaced by \<open>.wav\<close>. The third file, \<open>Temp/temp_frame.png\<close>,
  is a flag of the loop state.
\<close>

datatype audio_file = Mp3 | Wav

datatype event =
    Read bool              \<comment> \<open>\<open>cap.read()\<close> returned with this \<open>ret\<close>\<close>
  | Count nat              \<comment> \<open>\<open>frame_count += 1\<close> produced this value\<close>
  | Display int int int    \<comment> \<open>\<open>to_terminal(columns=c)\<close> returned: pixel width, pixel height, \<open>c\<close>\<close>
  | SkipMsg                \<comment> \<open>"Unexpected error converting frame ... Skipping frame."\<close>
  | Sleep rat              \<comment> \<open>\<open>time.sleep(d)\<close> called\<close>
  | WriteTempFrame         \<comment> \<open>\<open>cv2.imwrite(temp_frame_path, frame)\<close> returned\<close>
  | RemoveTempFrame        \<comment> \<open>\<open>os.remove(temp_frame_path)\<close>, line 192\<close>
  | RemoveAudio audio_file \<comment> \<open>\<open>os.remove(audio_path)\<close> returned\<close>
  | RemoveAudioFailed      \<comment> \<open>\<open>os.remove(audio_path)\<close> raised and the handler of line 227 printed the error\<close>
  | OpenVideo string       \<comment> \<open>\<open>cv2.VideoCapture(video_path)\<close>\<close>
  | OpenErrorMsg           \<comment> \<open>"Error: Could not open video file ..."\<close>
  | Play audio_file        \<comment> \<open>\<open>playsound(audio_path, block=False)\<close> returned\<close>
  | PlayFailed             \<comment> \<open>\<open>playsound\<close> raised and the handler printed the error\<close>
  | InterruptMsg           \<comment> \<open>"Video playback interrupted by user."\<close>
  | ErrorMsg               \<comment> \<open>"Error during video playback: ..."\<close>
  | Release                \<comment> \<open>\<open>cap.release()\<close>\<close>
  | UsageMsg               \<comment> \<open>the two usage lines\<close>

subsection \<open>The state of the render loop\<close>

text \<open>
  The local variables the loop reads and writes, the future of the frame source, the
  number of \<open>time.time()\<close> calls made so far, whether \<open>Temp/temp_frame.png\<close> exists, and
  the events so far.
\<close>

record lstate =
  frame_count :: nat
  start_time :: rat
  target_frame_delay :: rat
  src :: "read_outcome list"
  ticks :: nat
  temp_frame_file :: bool
  trace :: "event list"

text \<open>
  The part of the world the loop consults: the \<open>n\<close>-th call of \<open>time.time()\<close> returns
  \<open>clock n\<close>; a \<open>time.sleep\<close> called after \<open>n\<close> clock readings raises \<open>sleep_raises n\<close>.
\<close>

record timing =
  clock :: "nat \<Rightarrow> rat"
  sleep_raises :: "nat \<Rightarrow> py_exc option"

definition emit :: "event \<Rightarrow> lstate \<Rightarrow> lstate" where
  "emit e st = st\<lparr>trace := trace st @ [e]\<rparr>"

definition now :: "timing \<Rightarrow> lstate \<Rightarrow> rat \<times> lstate" where
  \<comment> \<open>\<open>time.time()\<close>\<close>
  "now T st = (clock T (ticks st), st\<lparr>ticks := Suc (ticks st)\<rparr>)"

definition count_frame :: "lstate \<Rightarrow> lstate" where
  \<comment> \<open>\<open>frame_count += 1\<close>\<close>
  "count_frame st = emit (Count (Suc (frame_count st))) (st\<lparr>frame_count := Suc (frame_count st)\<rparr>)"

definition py_int :: "rat \<Rightarrow> int" where
  \<comment> \<open>\<open>int(x)\<close> of a float: truncation towards zero\<close>
  "py_int x = (if 0 \<le> x then \<lfloor>x\<rfloor> else \<lceil>x\<rceil>)"

subsection \<open>Double precision arithmetic\<close>

text \<open>
  A Python float is an IEEE 754 double. \<open>to_double x\<close> is the double nearest to the
  rational \<open>x\<close>: with \<open>2 ^ p \<le> \<bar>x\<bar> < 2 ^ (p + 1)\<close> (\<open>p\<close> is \<open>binade \<bar>x\<bar>\<close>), the
  doubles around \<open>x\<close> are the multiples of \<open>2 ^ (p - 52)\<close>, and \<open>x\<close> goes to the nearest
  one, to the one with the even multiplier when it is half way between two. True
  division of two \<open>int\<close>s, the conversion of an \<open>int\<close> to \<open>float\<close> and the product of two
  floats are each the exact result rounded once.
\<close>

function ilog2 :: "int \<Rightarrow> nat" where
  \<comment> \<open>\<open>n.bit_length() - 1\<close> for \<open>n > 0\<close>\<close>
  "ilog2 n = (if n < 2 then 0 else Suc (ilog2 (n div 2)))"
  by pat_completeness auto

termination
  by (relation "measure nat") auto

declare ilog2.simps [simp del]

definition pow2 :: "int \<Rightarrow> rat" where
  "pow2 e = (if 0 \<le> e then 2 ^ nat e else 1 / 2 ^ nat (- e))"

definition binade :: "rat \<Rightarrow> int" where
  \<comment> \<open>for \<open>x > 0\<close>, the \<open>p\<close> with \<open>2 ^ p \<le> x < 2 ^ (p + 1)\<close>\<close>
  "binade x =
     (let (a, b) = quotient_of x;
          k = int (ilog2 a) - int (ilog2 b)
      in if pow2 k \<le> x then k else k - 1)"

definition round_even :: "rat \<Rightarrow> int" where
  \<comment> \<open>the nearest integer, the even one of the two when half way\<close>
  "round_even t =
     (let n = \<lfloor>t\<rfloor>; r = t - of_int n
      in if r < 1 / 2 then n else if 1 / 2 < r then n + 1 else if even n then n else n + 1)"

definition to_double :: "rat \<Rightarrow> rat" where
  "to_double x =
     (if x = 0 then 0
      else (let e = binade \<bar>x\<bar> - 52
            in sgn x * of_int (round_even (\<bar>x\<bar> / pow2 e)) * pow2 e))"

subsection \<open>Converting a frame (lines 168 to 186)\<close>

definition resize_dims :: "int \<Rightarrow> int \<Rightarrow> int \<times> int" where
  \<comment> \<open>lines 172 to 174: \<open>scale = 640 / width\<close>, then
      \<open>(new_width, new_height) = (int(width * scale), int(height * scale))\<close>\<close>
  "resize_dims w h =
     (let scale = to_double (640 / of_int w)
      in (py_int (to_double (to_double (of_int w) * scale)),
          py_int (to_double (to_double (of_int h) * scale))))"

definition shrink :: "frame \<Rightarrow> py_exc + (int \<times> int)" where
  \<comment> \<open>lines 170 to 175: pixel width and height of \<open>frame\<close> after the optional resize\<close>
  "shrink f =
     (if width f > 640 then
        (case resize_raises f of
           Some e \<Rightarrow> Inl e
         | None \<Rightarrow> Inr (resize_dims (width f) (height f)))
      else Inr (width f, height f))"

datatype conv_result =
    Converted int int bool   \<comment> \<open>\<open>ascii_image\<close> of these pixel dimensions; is \<open>temp_frame_path\<close> set\<close>
  | SkipFrame                \<comment> \<open>the \<open>except Exception\<close> clause ran\<close>
  | Propagate py_exc         \<comment> \<open>an exception left the \<open>try\<close> statement\<close>

definition fallback :: "frame \<Rightarrow> int \<times> int \<Rightarrow> lstate \<Rightarrow> conv_result \<times> lstate" where
  \<comment> \<open>lines 180 to 182, the body of \<open>except AttributeError\<close>; nothing catches what it raises\<close>
  "fallback f d st =
     (case imwrite_raises f of
        Some e \<Rightarrow> (Propagate e, st)
      | None \<Rightarrow>
          (let st1 = emit WriteTempFrame (st\<lparr>temp_frame_file := True\<rparr>)
           in case from_image_raises f of
                Some e \<Rightarrow> (Propagate e, st1)
              | None \<Rightarrow> (Converted (fst d) (snd d) True, st1)))"

definition on_raise :: "py_exc \<Rightarrow> frame \<Rightarrow> int \<times> int \<Rightarrow> lstate \<Rightarrow> conv_result \<times> lstate" where
  \<comment> \<open>which \<open>except\<close> clause of lines 179 to 186 takes an exception raised in the \<open>try\<close> body\<close>
  "on_raise e f d st =
     (if e = AttributeError then fallback f d st
      else if is_Exception e then (SkipFrame, st)
      else (Propagate e, st))"

definition convert_frame :: "frame \<Rightarrow> lstate \<Rightarrow> conv_result \<times> lstate" where
  "convert_frame f st =
     (case shrink f of
        Inl e \<Rightarrow> on_raise e f (width f, height f) st
      | Inr d \<Rightarrow>
          (case from_array_raises f of
             Some e \<Rightarrow> on_raise e f d st
           | None \<Rightarrow> (Converted (fst d) (snd d) False, st)))"

subsection \<open>Pacing (lines 196 to 211)\<close>

text \<open>One \<open>cap.read()\<close>: the next outcome of the source; an exhausted source answers \<open>(False, None)\<close>.\<close>

definition cap_read :: "lstate \<Rightarrow> read_outcome \<times> lstate" where
  "cap_read st = (case src st of [] \<Rightarrow> (NoFrame, st) | r # rs \<Rightarrow> (r, st\<lparr>src := rs\<rparr>))"

text \<open>The \<open>for\<close> loop of lines 207 to 211 with \<open>n\<close> rounds left.\<close>

fun catch_up :: "nat \<Rightarrow> lstate \<Rightarrow> lstate \<times> py_exc option" where
  "catch_up 0 st = (st, None)"
| "catch_up (Suc n) st =
     (case cap_read st of
        (ReadRaises e, st1) \<Rightarrow> (st1, Some e)
      | (NoFrame, st1) \<Rightarrow> (emit (Read False) st1, None)
      | (Got f, st1) \<Rightarrow> catch_up n (count_frame (emit (Read True) st1)))"

definition slack :: "lstate \<Rightarrow> rat \<Rightarrow> rat" where
  \<comment> \<open>lines 199 and 202: \<open>sleep_time\<close> at the clock reading \<open>t\<close>\<close>
  "slack st t = (start_time st + of_nat (frame_count st) * target_frame_delay st) - t"

definition backlog :: "lstate \<Rightarrow> rat \<Rightarrow> int" where
  \<comment> \<open>line 206: \<open>frames_to_skip\<close>\<close>
  "backlog st t = py_int (\<bar>slack st t\<bar> / target_frame_delay st)"

definition pace :: "timing \<Rightarrow> lstate \<Rightarrow> lstate \<times> py_exc option" where
  "pace T st =
     (let (frame_end, st1) = now T st;
          (current_time, st2) = now T st1;
          sleep_time = slack st2 current_time
      in if sleep_time > 0 then
           (case sleep_raises T (ticks st2) of
              Some e \<Rightarrow> (st2, Some e)
            | None \<Rightarrow> (emit (Sleep sleep_time) st2, None))
         else if sleep_time < - target_frame_delay st2 then
           catch_up (nat (min (backlog st2 current_time) 3)) st2
         else (st2, None))"

subsection \<open>One iteration of the \<open>while\<close> loop (lines 161 to 211)\<close>

datatype status = Continue | Break | Raised py_exc

definition show_frame :: "int \<Rightarrow> int \<Rightarrow> int \<Rightarrow> bool \<Rightarrow> lstate \<Rightarrow> lstate" where
  \<comment> \<open>lines 188 to 194 once \<open>to_terminal\<close> has returned\<close>
  "show_frame columns w h tmp st =
     (let st1 = emit (Display w h (min columns 100)) st;
          st2 = (if tmp \<and> temp_frame_file st1
                 then emit RemoveTempFrame (st1\<lparr>temp_frame_file := False\<rparr>)
                 else st1)
      in count_frame st2)"

definition display :: "timing \<Rightarrow> int \<Rightarrow> frame \<Rightarrow> int \<Rightarrow> int \<Rightarrow> bool \<Rightarrow> lstate \<Rightarrow> lstate \<times> status" where
  \<comment> \<open>lines 188 to 211, after a successful conversion\<close>
  "display T columns f w h tmp st =
     (case to_terminal_raises f of
        Some e \<Rightarrow> (st, Raised e)
      | None \<Rightarrow>
          (case pace T (show_frame columns w h tmp st) of
             (st4, None) \<Rightarrow> (st4, Continue)
           | (st4, Some e) \<Rightarrow> (st4, Raised e)))"

definition iteration :: "timing \<Rightarrow> int \<Rightarrow> lstate \<Rightarrow> lstate \<times> status" where
  "iteration T columns st =
     (let (frame_start, st1) = now T st
      in case cap_read st1 of
           (ReadRaises e, st2) \<Rightarrow> (st2, Raised e)
         | (NoFrame, st2) \<Rightarrow> (emit (Read False) st2, Break)
         | (Got f, st2) \<Rightarrow>
             (case convert_frame f (emit (Read True) st2) of
                (Propagate e, st3) \<Rightarrow> (st3, Raised e)
              | (SkipFrame, st3) \<Rightarrow> (count_frame (emit SkipMsg st3), Continue)
              | (Converted w h tmp, st3) \<Rightarrow> display T columns f w h tmp st3))"

subsection \<open>What the state updates leave alone\<close>


lemma emit_fields:
  "frame_count (emit e st) = frame_count st"
  "start_time (emit e st) = start_time st"
  "target_frame_delay (emit e st) = target_frame_delay st"
  "src (emit e st) = src st"
  "ticks (emit e st) = ticks st"
  "temp_frame_file (emit e st) = temp_frame_file st"
  "trace (emit e st) = trace st @ [e]"
  by (simp_all add: emit_def)

lemma count_frame_fields:
  "frame_count (count_frame st) = Suc (frame_count st)"
  "start_time (count_frame st) = start_time st"
  "target_frame_delay (count_frame st) = target_frame_delay st"
  "src (count_frame st) = src st"
  "ticks (count_frame st) = ticks st"
  "temp_frame_file (count_frame st) = temp_frame_file st"
  "trace (count_frame st) = trace st @ [Count (Suc (frame_count st))]"
  by (simp_all add: count_frame_def emit_def)

lemma cap_read_src: "length (src (snd (cap_read st))) \<le> length (src st)"
  by (simp add: cap_read_def split: list.splits)

lemma cap_read_Got_src: "cap_read st = (Got f, st1) \<Longrightarrow> length (src st1) < length (src st)"
  by (auto simp add: cap_read_def split: list.splits)

lemma catch_up_src: "length (src (fst (catch_up n st))) \<le> length (src st)"
proof (induction n arbitrary: st)
  case 0
  then show ?case by simp
next
  case (Suc n)
  obtain r st1 where r: "cap_read st = (r, st1)" by (cases "cap_read st")
  have le: "length (src st1) \<le> length (src st)" using cap_read_src [of st] r by simp
  show ?case
  proof (cases r)
    case (Got f)
    have "length (src (fst (catch_up n (count_frame (emit (Read True) st1)))))
          \<le> length (src (count_frame (emit (Read True) st1)))" by (rule Suc.IH)
    then show ?thesis using r Got le by (simp add: count_frame_fields emit_fields)
  next
    case NoFrame
    then show ?thesis using r le by (simp add: emit_fields)
  next
    case (ReadRaises e)
    then show ?thesis using r le by simp
  qed
qed

lemma pace_src: "length (src (fst (pace T st))) \<le> length (src st)"
proof -
  let ?st2 = "st\<lparr>ticks := Suc (Suc (ticks st))\<rparr>"
  have "length (src (fst (catch_up n ?st2))) \<le> length (src st)" for n
    using catch_up_src [of n ?st2] by simp
  then show ?thesis
    by (simp add: pace_def now_def Let_def emit_fields split: option.splits)
qed

lemma convert_frame_src: "src (snd (convert_frame f st)) = src st"
  by (simp add: convert_frame_def on_raise_def fallback_def emit_fields Let_def
      split: sum.splits option.splits)

lemma show_frame_fields:
  "frame_count (show_frame c w h tmp st) = Suc (frame_count st)"
  "start_time (show_frame c w h tmp st) = start_time st"
  "target_frame_delay (show_frame c w h tmp st) = target_frame_delay st"
  "src (show_frame c w h tmp st) = src st"
  "ticks (show_frame c w h tmp st) = ticks st"
  by (simp_all add: show_frame_def Let_def count_frame_fields emit_fields)

lemma display_src: "length (src (fst (display T c f w h tmp st))) \<le> length (src st)"
proof (cases "to_terminal_raises f")
  case (Some e)
  then show ?thesis by (simp add: display_def)
next
  case None
  have "fst (display T c f w h tmp st) = fst (pace T (show_frame c w h tmp st))"
    using None by (simp add: display_def split: prod.splits option.splits)
  then show ?thesis
    using pace_src [of T "show_frame c w h tmp st"] by (simp add: show_frame_fields)
qed

lemma iteration_src:
  assumes "iteration T c st = (st', Continue)"
  shows "length (src st') < length (src st)"
proof -
  let ?st1 = "st\<lparr>ticks := Suc (ticks st)\<rparr>"
  obtain r st2 where r: "cap_read ?st1 = (r, st2)" by (cases "cap_read ?st1")
  show ?thesis
  proof (cases r)
    case (Got f)
    have lt: "length (src st2) < length (src st)"
      using cap_read_Got_src [of ?st1 f st2] r Got by simp
    obtain cr st3 where cv: "convert_frame f (emit (Read True) st2) = (cr, st3)"
      by (cases "convert_frame f (emit (Read True) st2)")
    have s3: "src st3 = src st2"
      using convert_frame_src [of f "emit (Read True) st2"] cv by (simp add: emit_fields)
    show ?thesis
    proof (cases cr)
      case (Converted w h tmp)
      have "st' = fst (display T c f w h tmp st3)"
        using assms r Got cv Converted by (simp add: iteration_def now_def)
      then show ?thesis using display_src [of T c f w h tmp st3] s3 lt by simp
    next
      case SkipFrame
      have "st' = count_frame (emit SkipMsg st3)"
        using assms r Got cv SkipFrame by (simp add: iteration_def now_def)
      then show ?thesis using s3 lt by (simp add: count_frame_fields emit_fields)
    next
      case (Propagate e)
      then show ?thesis using assms r Got cv by (simp add: iteration_def now_def)
    qed
  next
    case NoFrame
    then show ?thesis using assms r by (simp add: iteration_def now_def)
  next
    case (ReadRaises e)
    then show ?thesis using assms r by (simp add: iteration_def now_def)
  qed
qed

subsection \<open>The \<open>while\<close> loop and its handlers (lines 159 to 218)\<close>

text \<open>
  Every iteration that continues has taken at least one outcome from the source, so the
  loop over a finite source ends.
\<close>

function run_loop :: "timing \<Rightarrow> int \<Rightarrow> lstate \<Rightarrow> lstate \<times> status" where
  "run_loop T columns st =
     (let (st', r) = iteration T columns st
      in if r = Continue then run_loop T columns st' else (st', r))"
  by pat_completeness auto
termination
  by (relation "measure (\<lambda>(T, columns, st). length (src st))") (auto dest: iteration_src [OF sym])

declare run_loop.simps [simp del]

datatype loop_exit = EndOfStream | Interrupted | Faulted py_exc

definition render_loop :: "timing \<Rightarrow> int \<Rightarrow> lstate \<Rightarrow> lstate \<times> loop_exit" where
  \<comment> \<open>the \<open>try\<close> statement of line 159 with its two \<open>except\<close> clauses\<close>
  "render_loop T columns st =
     (case run_loop T columns st of
        (st', Raised e) \<Rightarrow>
          (if e = KeyboardInterrupt then (emit InterruptMsg st', Interrupted)
           else (emit ErrorMsg st', Faulted e))
      | (st', _) \<Rightarrow> (st', EndOfStream))"

subsection \<open>The audio stage (lines 23 to 122)\<close>

text \<open>
  The files under \<open>Temp/\<close> are a map from the audio file to its size. The directory
  itself (lines 18 to 21 and 49 to 51) is taken to exist or to be created without error.
  \<open>write_audiofile\<close> either writes a file of some size, returns without leaving a file,
  or raises; a call that raises leaves no file.
\<close>

type_synonym files = "audio_file \<Rightarrow> nat option"

datatype write_outcome = Written nat | NotWritten | WriteRaises py_exc

record world =
  audio_before :: files                    \<comment> \<open>audio files left by an earlier run\<close>
  temp_frame_before :: bool                \<comment> \<open>\<open>Temp/temp_frame.png\<close> left by an earlier run\<close>
  clip_load_raises :: "py_exc option"      \<comment> \<open>\<open>VideoFileClip(video_path)\<close>\<close>
  has_audio :: bool                        \<comment> \<open>\<open>video_clip.audio is not None\<close>\<close>
  stale_remove_raises :: "py_exc option"   \<comment> \<open>\<open>os.remove(audio_path)\<close>, line 43\<close>
  mp3_write :: write_outcome               \<comment> \<open>\<open>write_audiofile\<close>, line 55\<close>
  wav_write :: write_outcome               \<comment> \<open>\<open>write_audiofile\<close>, line 68\<close>
  audio_read_raises :: "py_exc option"     \<comment> \<open>\<open>open\<close> and \<open>read(1)\<close>, lines 88 and 89\<close>
  cap_opened :: bool                       \<comment> \<open>\<open>cap.isOpened()\<close> after \<open>cv2.VideoCapture\<close>\<close>
  fps :: rat                               \<comment> \<open>\<open>cap.get(cv2.CAP_PROP_FPS)\<close>; 0 when unavailable\<close>
  frames :: "read_outcome list"            \<comment> \<open>what the successive \<open>cap.read()\<close> calls return\<close>
  time_env :: timing
  playsound_raises :: "py_exc option"      \<comment> \<open>\<open>playsound(audio_path, block=False)\<close>\<close>
  audio_remove_raises :: "py_exc option"   \<comment> \<open>\<open>os.remove(audio_path)\<close>, line 225\<close>

definition write_audiofile :: "write_outcome \<Rightarrow> audio_file \<Rightarrow> files \<Rightarrow> py_exc option \<times> files" where
  "write_audiofile w a fs =
     (case w of
        Written n \<Rightarrow> (None, fs(a \<mapsto> n))
      | NotWritten \<Rightarrow> (None, fs)
      | WriteRaises e \<Rightarrow> (Some e, fs))"

definition extract_audio :: "world \<Rightarrow> files \<Rightarrow> (py_exc + audio_file option) \<times> files" where
  \<comment> \<open>lines 53 to 73: \<open>audio_path\<close> afterwards, unless an exception leaves\<close>
  "extract_audio W fs =
     (case write_audiofile (mp3_write W) Mp3 fs of
        (None, fs1) \<Rightarrow> (Inr (Some Mp3), fs1)
      | (Some e, fs1) \<Rightarrow>
          (if is_Exception e then
             (case write_audiofile (wav_write W) Wav fs1 of
                (None, fs2) \<Rightarrow> (Inr (Some Wav), fs2)
              | (Some e', fs2) \<Rightarrow>
                  (if is_Exception e' then (Inr None, fs2) else (Inl e', fs2)))
           else (Inl e, fs1)))"

definition guarded_extract :: "world \<Rightarrow> files \<Rightarrow> (py_exc + audio_file option) \<times> files" where
  \<comment> \<open>lines 47 to 79: the enclosing \<open>try\<close> with \<open>except Exception\<close>\<close>
  "guarded_extract W fs =
     (case extract_audio W fs of
        (Inl e, fs1) \<Rightarrow> (if is_Exception e then (Inr None, fs1) else (Inl e, fs1))
      | (Inr ap, fs1) \<Rightarrow> (Inr ap, fs1))"

definition verify :: "world \<Rightarrow> audio_file option \<Rightarrow> files \<Rightarrow> py_exc + audio_file option" where
  \<comment> \<open>lines 81 to 110\<close>
  "verify W ap fs =
     (case ap of
        None \<Rightarrow> Inr None
      | Some a \<Rightarrow>
          (case fs a of
             None \<Rightarrow> Inr None
           | Some file_size \<Rightarrow>
               (if file_size > 0 then
                  (case audio_read_raises W of
                     None \<Rightarrow> Inr (Some a)
                   | Some e \<Rightarrow> (if is_Exception e then Inr None else Inl e))
                else Inr None)))"

definition remove_stale :: "world \<Rightarrow> files \<Rightarrow> py_exc + files" where
  \<comment> \<open>lines 42 to 44\<close>
  "remove_stale W fs =
     (if fs Mp3 \<noteq> None then
        (case stale_remove_raises W of
           Some e \<Rightarrow> Inl e
         | None \<Rightarrow> Inr (fs(Mp3 := None)))
      else Inr fs)"

definition audio_body :: "world \<Rightarrow> files \<Rightarrow> (py_exc + audio_file option) \<times> files" where
  \<comment> \<open>lines 26 to 112, the body of the outermost \<open>try\<close>\<close>
  "audio_body W fs =
     (case clip_load_raises W of
        Some e \<Rightarrow> (Inl e, fs)
      | None \<Rightarrow>
          (if has_audio W then
             (case remove_stale W fs of
                Inl e \<Rightarrow> (Inl e, fs)
              | Inr fs1 \<Rightarrow>
                  (case guarded_extract W fs1 of
                     (Inl e, fs2) \<Rightarrow> (Inl e, fs2)
                   | (Inr ap, fs2) \<Rightarrow> (verify W ap fs2, fs2)))
           else (Inr None, fs)))"

definition prepare_audio :: "world \<Rightarrow> files \<Rightarrow> (py_exc + audio_file option) \<times> files" where
  \<comment> \<open>lines 23 to 122: \<open>except Exception\<close> of line 114 sets \<open>audio_path = None\<close>\<close>
  "prepare_audio W fs =
     (case audio_body W fs of
        (Inl e, fs1) \<Rightarrow> (if is_Exception e then (Inr None, fs1) else (Inl e, fs1))
      | (Inr ap, fs1) \<Rightarrow> (Inr ap, fs1))"

subsection \<open>The whole function and the script\<close>

definition delay_of_fps :: "rat \<Rightarrow> rat" where
  \<comment> \<open>lines 134 to 137\<close>
  "delay_of_fps r = (if r > 0 then 1 / r else 1 / 30)"

definition initial_lstate :: "world \<Rightarrow> lstate" where
  \<comment> \<open>lines 131 to 144; \<open>start_time\<close> is the first clock reading\<close>
  "initial_lstate W =
     \<lparr>frame_count = 0,
      start_time = clock (time_env W) 0,
      target_frame_delay = delay_of_fps (fps W),
      src = frames W,
      ticks = 1,
      temp_frame_file = temp_frame_before W,
      trace = []\<rparr>"

definition start_playback :: "world \<Rightarrow> audio_file option \<Rightarrow> event list \<times> py_exc option" where
  \<comment> \<open>lines 150 to 157\<close>
  "start_playback W ap =
     (case ap of
        None \<Rightarrow> ([], None)
      | Some a \<Rightarrow>
          (case playsound_raises W of
             None \<Rightarrow> ([Play a], None)
           | Some e \<Rightarrow> (if is_Exception e then ([PlayFailed], None) else ([], Some e))))"

definition teardown :: "world \<Rightarrow> audio_file option \<Rightarrow> files \<Rightarrow> event list \<times> files \<times> py_exc option" where
  \<comment> \<open>lines 219 to 228, the \<open>finally\<close> clause\<close>
  "teardown W ap fs =
     (case ap of
        None \<Rightarrow> ([Release], fs, None)
      | Some a \<Rightarrow>
          (if fs a \<noteq> None then
             (case audio_remove_raises W of
                None \<Rightarrow> ([Release, RemoveAudio a], fs(a := None), None)
              | Some e \<Rightarrow>
                  (if is_Exception e then ([Release, RemoveAudioFailed], fs, None)
                   else ([Release], fs, Some e)))
           else ([Release], fs, None)))"

text \<open>
  What a call of the function leaves behind: the events, the exception that left the
  function if one did, the audio files and the value of \<open>audio_path\<close> at the end, and,
  when the loop was entered, its last state and the way it ended.
\<close>

record outcome =
  events :: "event list"
  uncaught :: "py_exc option"
  audio_after :: files
  audio_path :: "audio_file option"
  loop_result :: "(lstate \<times> loop_exit) option"

definition video_to_ascii_cli :: "world \<Rightarrow> string \<Rightarrow> int option \<Rightarrow> outcome" where
  "video_to_ascii_cli W video_path columns_arg =
     (let columns = (case columns_arg of None \<Rightarrow> 80 | Some c \<Rightarrow> c)
      in case prepare_audio W (audio_before W) of
           (Inl e, fs) \<Rightarrow>
             \<lparr>events = [], uncaught = Some e, audio_after = fs, audio_path = None,
              loop_result = None\<rparr>
         | (Inr ap, fs) \<Rightarrow>
             (if \<not> cap_opened W then
                \<lparr>events = [OpenVideo video_path, OpenErrorMsg], uncaught = None,
                 audio_after = fs, audio_path = ap, loop_result = None\<rparr>
              else
                (case start_playback W ap of
                   (evs, Some e) \<Rightarrow>
                     \<lparr>events = OpenVideo video_path # evs, uncaught = Some e,
                      audio_after = fs, audio_path = ap, loop_result = None\<rparr>
                 | (evs, None) \<Rightarrow>
                     (let (st, ex) = render_loop (time_env W) columns (initial_lstate W);
                          (tevs, fs1, u) = teardown W ap fs
                      in \<lparr>events = OpenVideo video_path # evs @ trace st @ tevs,
                          uncaught = u, audio_after = fs1, audio_path = ap,
                          loop_result = Some (st, ex)\<rparr>))))"

text \<open>
  The script, lines 233 to 240. A process that ends because an exception left the
  function ends with a traceback and a status that is not 0.
\<close>

datatype exit_status = Exit nat | Traceback py_exc

definition main :: "world \<Rightarrow> string list \<Rightarrow> exit_status \<times> event list" where
  "main W argv =
     (if length argv \<noteq> 2 then (Exit 1, [UsageMsg])
      else
        (let r = video_to_ascii_cli W (argv ! 1) None
         in case uncaught r of
              None \<Rightarrow> (Exit 0, events r)
            | Some e \<Rightarrow> (Traceback e, events r)))"

section \<open>Catching up (lines 205 to 211)\<close>

text \<open>
  The frames a catch-up of at most \<open>n\<close> rounds discards are the leading frames among the
  next \<open>n\<close> outcomes of the source; \<open>skips c k\<close> are the events of discarding \<open>k\<close> frames
  when the counter stands at \<open>c\<close>; \<open>discard_tail\<close> is the failed read that ends the
  catch-up early when the source has no frame left.
\<close>

definition is_frame :: "read_outcome \<Rightarrow> bool" where
  "is_frame r = (case r of Got f \<Rightarrow> True | _ \<Rightarrow> False)"

fun skips :: "nat \<Rightarrow> nat \<Rightarrow> event list" where
  "skips c 0 = []"
| "skips c (Suc k) = Read True # Count (Suc c) # skips (Suc c) k"

definition discarded :: "nat \<Rightarrow> read_outcome list \<Rightarrow> nat" where
  "discarded n rs = length (takeWhile is_frame (take n rs))"

lemma discarded_le: "discarded n rs \<le> n"
proof -
  have "length (takeWhile is_frame (take n rs)) \<le> length (take n rs)"
    by (rule length_takeWhile_le)
  then show ?thesis by (simp add: discarded_def)
qed

lemma discarded_simps:
  "discarded 0 rs = 0"
  "discarded (Suc n) [] = 0"
  "discarded (Suc n) (Got f # rs) = Suc (discarded n rs)"
  "discarded (Suc n) (NoFrame # rs) = 0"
  "discarded (Suc n) (ReadRaises e # rs) = 0"
  by (simp_all add: discarded_def is_frame_def)

definition discard_tail :: "nat \<Rightarrow> read_outcome list \<Rightarrow> event list" where
  "discard_tail n rs =
     (if discarded n rs < n then
        (case drop (discarded n rs) rs of
           [] \<Rightarrow> [Read False]
         | NoFrame # _ \<Rightarrow> [Read False]
         | _ \<Rightarrow> [])
      else [])"

lemma discard_tail_simps:
  "discard_tail 0 rs = []"
  "discard_tail (Suc n) [] = [Read False]"
  "discard_tail (Suc n) (Got f # rs) = discard_tail n rs"
  "discard_tail (Suc n) (NoFrame # rs) = [Read False]"
  "discard_tail (Suc n) (ReadRaises e # rs) = []"
  by (simp_all add: discard_tail_def discarded_simps)

lemma catch_up_effect:
  "trace (fst (catch_up n st))
     = trace st @ skips (frame_count st) (discarded n (src st)) @ discard_tail n (src st)
   \<and> frame_count (fst (catch_up n st)) = frame_count st + discarded n (src st)
   \<and> start_time (fst (catch_up n st)) = start_time st
   \<and> target_frame_delay (fst (catch_up n st)) = target_frame_delay st
   \<and> ticks (fst (catch_up n st)) = ticks st
   \<and> temp_frame_file (fst (catch_up n st)) = temp_frame_file st"
proof (induction n arbitrary: st)
  case 0
  then show ?case by (simp add: discarded_simps discard_tail_simps)
next
  case (Suc n)
  show ?case
  proof (cases "src st")
    case Nil
    then show ?thesis by (simp add: cap_read_def discarded_simps discard_tail_simps emit_fields)
  next
    case (Cons r rs)
    show ?thesis
    proof (cases r)
      case (Got f)
      let ?st1 = "count_frame (emit (Read True) (st\<lparr>src := rs\<rparr>))"
      have eq: "catch_up (Suc n) st = catch_up n ?st1"
        using Cons Got by (simp add: cap_read_def)
      show ?thesis
        unfolding eq using Suc.IH [of ?st1] Cons Got
        by (simp add: discarded_simps discard_tail_simps count_frame_fields emit_fields)
    next
      case NoFrame
      then show ?thesis using Cons
        by (simp add: cap_read_def discarded_simps discard_tail_simps emit_fields)
    next
      case (ReadRaises e)
      then show ?thesis using Cons by (simp add: cap_read_def discarded_simps discard_tail_simps)
    qed
  qed
qed

lemma py_int_floor: "0 \<le> x \<Longrightarrow> py_int x = \<lfloor>x\<rfloor>"
  by (simp add: py_int_def)

lemma behind_backlog:
  assumes d: "0 < target_frame_delay st" and s: "slack st t < - target_frame_delay st"
  shows "backlog st t = \<lfloor>\<bar>slack st t\<bar> / target_frame_delay st\<rfloor>" and "1 \<le> backlog st t"
proof -
  have nn: "0 \<le> \<bar>slack st t\<bar> / target_frame_delay st" using d by simp
  show b: "backlog st t = \<lfloor>\<bar>slack st t\<bar> / target_frame_delay st\<rfloor>"
    by (simp add: backlog_def py_int_floor [OF nn])
  have "target_frame_delay st < \<bar>slack st t\<bar>" using d s by linarith
  then have "1 \<le> \<bar>slack st t\<bar> / target_frame_delay st" using d by (simp add: le_divide_eq)
  then show "1 \<le> backlog st t" unfolding b by linarith
qed

lemma pace_behind:
  assumes d: "0 < target_frame_delay st"
    and s: "slack st (clock T (Suc (ticks st))) < - target_frame_delay st"
  shows "pace T st = catch_up (nat (min (backlog st (clock T (Suc (ticks st)))) 3))
                       (st\<lparr>ticks := Suc (Suc (ticks st))\<rparr>)"
proof -
  let ?t = "clock T (Suc (ticks st))"
  let ?st2 = "st\<lparr>ticks := Suc (Suc (ticks st))\<rparr>"
  have sl: "slack ?st2 ?t = slack st ?t" by (simp add: slack_def)
  have bl: "backlog ?st2 ?t = backlog st ?t" by (simp add: backlog_def slack_def)
  have npos: "\<not> 0 < slack st ?t" using d s by linarith
  show ?thesis
    unfolding pace_def now_def Let_def prod.case
    using s npos by (simp add: sl bl)
qed

text \<open>Inputs for the examples: a frame that every library call accepts, a clock that
  advances a quarter of a second per reading, and a loop state that is far behind.\<close>

definition plain_frame :: "int \<Rightarrow> int \<Rightarrow> frame" where
  "plain_frame w h =
     \<lparr>height = h, width = w, resize_raises = None, from_array_raises = None,
      imwrite_raises = None, from_image_raises = None, to_terminal_raises = None\<rparr>"

definition seconds_clock :: timing where
  "seconds_clock = \<lparr>clock = (\<lambda>n. of_nat n / 4), sleep_raises = (\<lambda>n. None)\<rparr>"

definition late_state :: "nat \<Rightarrow> lstate" where
  "late_state m =
     \<lparr>frame_count = 1, start_time = 0, target_frame_delay = 1 / 25,
      src = replicate m (Got (plain_frame 320 240)), ticks = 9, temp_frame_file = False,
      trace = [Read True, Display 320 240 80, Count 1]\<rparr>"

text \<open>
  Claim C1. In an iteration that has displayed a frame and incremented \<open>frame_count\<close>,
  let \<open>t\<close> be the clock reading of line 200. If the slack
  \<open>start_time + frame_count * target_frame_delay - t\<close> is below \<open>- target_frame_delay\<close>, the
  pacing step reads further frames and only counts them: \<open>frame_count\<close> grows by the number
  \<open>k\<close> of frames discarded, \<open>k\<close> is at most 3 and at most the backlog
  \<open>floor (|slack| / target_frame_delay)\<close>, which is at least 1, and the events added are
  \<open>k\<close> pairs of a successful read and a count, followed by one failed read when the
  source ran out before the rounds did. No frame is displayed and nothing sleeps.
\<close>

theorem catch_up_bounded:
  assumes d: "0 < target_frame_delay st"
    and t: "t = clock T (Suc (ticks st))"
    and s: "slack st t < - target_frame_delay st"
    and n: "n = nat (min (backlog st t) 3)"
    and k: "k = discarded n (src st)"
  shows "backlog st t = \<lfloor>\<bar>slack st t\<bar> / target_frame_delay st\<rfloor>
    \<and> 1 \<le> backlog st t
    \<and> k \<le> 3
    \<and> int k \<le> backlog st t
    \<and> frame_count (fst (pace T st)) = frame_count st + k
    \<and> trace (fst (pace T st)) = trace st @ skips (frame_count st) k @ discard_tail n (src st)"
proof -
  let ?st2 = "st\<lparr>ticks := Suc (Suc (ticks st))\<rparr>"
  have b: "backlog st t = \<lfloor>\<bar>slack st t\<bar> / target_frame_delay st\<rfloor>" and b1: "1 \<le> backlog st t"
    using behind_backlog [OF d s] by simp_all
  have p: "pace T st = catch_up n ?st2"
    using pace_behind [OF d] s t n by simp
  have eff: "trace (fst (catch_up n ?st2)) = trace ?st2 @ skips (frame_count ?st2) (discarded n (src ?st2)) @ discard_tail n (src ?st2)"
    and fc: "frame_count (fst (catch_up n ?st2)) = frame_count ?st2 + discarded n (src ?st2)"
    using catch_up_effect [of n ?st2] by blast+
  have tr': "trace (fst (pace T st)) = trace st @ skips (frame_count st) k @ discard_tail n (src st)"
    unfolding p using eff k by simp
  have fc': "frame_count (fst (pace T st)) = frame_count st + k"
    unfolding p using fc k by simp
  have kn: "k \<le> n" unfolding k by (rule discarded_le)
  have k3: "k \<le> 3" using kn n by linarith
  have kb: "int k \<le> backlog st t" using kn n b1 by linarith
  show ?thesis
    using b b1 k3 kb fc' tr' by blast
qed

theorem catch_up_bounded_witness:
  "0 < target_frame_delay (late_state 5)
   \<and> slack (late_state 5) (clock seconds_clock 10) < - target_frame_delay (late_state 5)
   \<and> backlog (late_state 5) (clock seconds_clock 10) = 61
   \<and> frame_count (fst (pace seconds_clock (late_state 5))) = 4
   \<and> trace (fst (pace seconds_clock (late_state 5)))
       = [Read True, Display 320 240 80, Count 1,
          Read True, Count 2, Read True, Count 3, Read True, Count 4]"
proof -
  have d: "0 < target_frame_delay (late_state 5)" by (simp add: late_state_def)
  have t: "clock seconds_clock 10 = clock seconds_clock (Suc (ticks (late_state 5)))"
    by (simp add: late_state_def)
  have s: "slack (late_state 5) (clock seconds_clock 10) < - target_frame_delay (late_state 5)"
    by (simp add: late_state_def seconds_clock_def slack_def)
  have b: "backlog (late_state 5) (clock seconds_clock 10) = 61"
    by (simp add: late_state_def seconds_clock_def slack_def backlog_def py_int_def floor_eq_iff)
  have n: "(3::nat) = nat (min (backlog (late_state 5) (clock seconds_clock 10)) 3)"
    by (simp add: b)
  have k: "(3::nat) = discarded 3 (src (late_state 5))"
    by (simp add: late_state_def discarded_def is_frame_def eval_nat_numeral)
  have sk: "skips (Suc 0) 3 = [Read True, Count 2, Read True, Count 3, Read True, Count 4]"
    by (simp add: eval_nat_numeral)
  have dt: "discard_tail 3 (src (late_state 5)) = []"
    using k by (simp add: discard_tail_def)
  have fc: "frame_count (late_state 5) = 1" and tr: "trace (late_state 5) = [Read True, Display 320 240 80, Count 1]"
    by (simp_all add: late_state_def)
  show ?thesis
    using catch_up_bounded [OF d t s n k] d s b by (simp add: sk dt fc tr)
qed

section \<open>Pacing a displayed frame (lines 196 to 204)\<close>

definition frozen_clock :: timing where
  "frozen_clock = \<lparr>clock = (\<lambda>n. 0), sleep_raises = (\<lambda>n. None)\<rparr>"

definition fresh_state :: "read_outcome list \<Rightarrow> lstate" where
  "fresh_state rs =
     \<lparr>frame_count = 0, start_time = 0, target_frame_delay = 1 / 25, src = rs, ticks = 1,
      temp_frame_file = False, trace = []\<rparr>"

definition unconvertible_frame :: frame where
  "unconvertible_frame = (plain_frame 320 240)\<lparr>from_array_raises := Some OtherException\<rparr>"

definition skip_then_show :: lstate where
  "skip_then_show = fresh_state [Got unconvertible_frame, Got (plain_frame 320 240)]"

lemma pace_ahead:
  assumes s: "0 < slack st (clock T (Suc (ticks st)))"
  shows "pace T st =
     (case sleep_raises T (Suc (Suc (ticks st))) of
        Some e \<Rightarrow> (st\<lparr>ticks := Suc (Suc (ticks st))\<rparr>, Some e)
      | None \<Rightarrow> (emit (Sleep (slack st (clock T (Suc (ticks st)))))
                   (st\<lparr>ticks := Suc (Suc (ticks st))\<rparr>), None))"
proof -
  let ?t = "clock T (Suc (ticks st))"
  let ?st2 = "st\<lparr>ticks := Suc (Suc (ticks st))\<rparr>"
  have sl: "slack ?st2 ?t = slack st ?t" by (simp add: slack_def)
  show ?thesis
    unfolding pace_def now_def Let_def prod.case
    using s by (simp add: sl split: option.splits)
qed

lemma pace_near:
  assumes s0: "slack st (clock T (Suc (ticks st))) \<le> 0"
    and s1: "- target_frame_delay st \<le> slack st (clock T (Suc (ticks st)))"
  shows "pace T st = (st\<lparr>ticks := Suc (Suc (ticks st))\<rparr>, None)"
proof -
  let ?t = "clock T (Suc (ticks st))"
  let ?st2 = "st\<lparr>ticks := Suc (Suc (ticks st))\<rparr>"
  have sl: "slack ?st2 ?t = slack st ?t" by (simp add: slack_def)
  have a: "\<not> 0 < slack st ?t" and b: "\<not> slack st ?t < - target_frame_delay st"
    using s0 s1 by linarith+
  show ?thesis
    unfolding pace_def now_def Let_def prod.case
    using a b by (simp add: sl)
qed

text \<open>
  Claim C3, amended. In an iteration whose frame is displayed (\<open>to_terminal\<close> returns), let
  \<open>st\<close> be the state after line 194 and \<open>t\<close> the clock reading of line 200. The slack
  is \<open>start_time + frame_count * target_frame_delay - t\<close> with the incremented counter.
  If it is positive, the iteration calls \<open>time.sleep\<close> with exactly the slack and ends;
  the next \<open>cap.read()\<close> belongs to the next iteration, and a sleep that lasts as long as
  asked ends at the target instant. If the sleep raises, the exception ends the loop. If
  the slack is zero or negative but not below \<open>- target_frame_delay\<close>, the iteration
  ends at once, with no sleep and no read.
\<close>

theorem displayed_frame_is_paced:
  assumes shown: "to_terminal_raises f = None"
    and st: "st = show_frame columns w h tmp st0"
    and t: "t = clock T (Suc (ticks st))"
    and st2: "st2 = st\<lparr>ticks := Suc (Suc (ticks st))\<rparr>"
  shows "slack st t = start_time st0 + of_nat (Suc (frame_count st0)) * target_frame_delay st0 - t
    \<and> (0 < slack st t \<and> sleep_raises T (ticks st2) = None \<longrightarrow>
         display T columns f w h tmp st0 = (emit (Sleep (slack st t)) st2, Continue))
    \<and> (0 < slack st t \<and> sleep_raises T (ticks st2) = Some e \<longrightarrow>
         display T columns f w h tmp st0 = (st2, Raised e))
    \<and> (slack st t \<le> 0 \<and> - target_frame_delay st \<le> slack st t \<longrightarrow>
         display T columns f w h tmp st0 = (st2, Continue))
    \<and> (0 < slack st t \<longrightarrow> t + slack st t = start_time st + of_nat (frame_count st) * target_frame_delay st)"
proof -
  have d: "display T columns f w h tmp st0 =
      (case pace T st of (st4, None) \<Rightarrow> (st4, Continue) | (st4, Some e) \<Rightarrow> (st4, Raised e))"
    using shown st by (simp add: display_def)
  have tk: "ticks st2 = Suc (Suc (ticks st))" using st2 by simp
  have c1: "slack st t = start_time st0 + of_nat (Suc (frame_count st0)) * target_frame_delay st0 - t"
    unfolding st slack_def by (simp only: show_frame_fields)
  have c2: "display T columns f w h tmp st0 = (emit (Sleep (slack st t)) st2, Continue)"
    if "0 < slack st t" "sleep_raises T (ticks st2) = None"
    using that pace_ahead [of st T] t st2 by (simp add: d)
  have c3: "display T columns f w h tmp st0 = (st2, Raised e)"
    if "0 < slack st t" "sleep_raises T (ticks st2) = Some e"
    using that pace_ahead [of st T] t st2 by (simp add: d)
  have c4: "display T columns f w h tmp st0 = (st2, Continue)"
    if "slack st t \<le> 0" "- target_frame_delay st \<le> slack st t"
    using that pace_near [of st T] t st2 by (simp add: d)
  have c5: "t + slack st t = start_time st + of_nat (frame_count st) * target_frame_delay st"
    by (simp add: slack_def)
  show ?thesis using c1 c2 c3 c4 c5 by blast
qed

theorem displayed_frame_is_paced_witness:
  "to_terminal_raises (plain_frame 320 240) = None
   \<and> 0 < slack (show_frame 80 320 240 False (fresh_state [])) (clock frozen_clock 2)
   \<and> display frozen_clock 80 (plain_frame 320 240) 320 240 False (fresh_state [])
       = (emit (Sleep (1 / 25)) ((show_frame 80 320 240 False (fresh_state []))\<lparr>ticks := 3\<rparr>),
          Continue)"
proof -
  let ?st = "show_frame 80 320 240 False (fresh_state [])"
  have a: "to_terminal_raises (plain_frame 320 240) = None" by (simp add: plain_frame_def)
  have tk: "ticks ?st = 1" by (simp add: show_frame_fields fresh_state_def)
  have t: "clock frozen_clock 2 = clock frozen_clock (Suc (ticks ?st))"
    by (simp add: frozen_clock_def)
  have st2: "?st\<lparr>ticks := 3\<rparr> = ?st\<lparr>ticks := Suc (Suc (ticks ?st))\<rparr>"
    by (simp add: tk eval_nat_numeral)
  have sl: "slack ?st (clock frozen_clock 2) = 1 / 25"
    by (simp add: slack_def show_frame_fields fresh_state_def frozen_clock_def)
  have sr: "sleep_raises frozen_clock (ticks (?st\<lparr>ticks := 3\<rparr>)) = None"
    by (simp add: frozen_clock_def)
  show ?thesis
    using displayed_frame_is_paced [OF a refl t st2] a sl sr by simp
qed

text \<open>
  The claim as stated speaks of every iteration. An iteration that skips its frame after
  a conversion error (line 186) increments the counter and continues without pacing: with
  a clock that stands still, the counter is 1 and the target instant \<open>1/25\<close> lies ahead,
  yet the iteration ends without a sleep and the next frame is read and shown at once.
\<close>

theorem skipped_frame_is_not_paced:
  "snd (iteration frozen_clock 80 skip_then_show) = Continue
   \<and> frame_count (fst (iteration frozen_clock 80 skip_then_show)) = 1
   \<and> trace (fst (iteration frozen_clock 80 skip_then_show)) = [Read True, SkipMsg, Count 1]
   \<and> slack (fst (iteration frozen_clock 80 skip_then_show)) (clock frozen_clock 2) = 1 / 25
   \<and> trace (fst (run_loop frozen_clock 80 skip_then_show))
       = [Read True, SkipMsg, Count 1, Read True, Display 320 240 80, Count 2,
          Sleep (2 / 25), Read False]"
  by code_simp

section \<open>The frame counter and the frames read\<close>

text \<open>
  \<open>reads\<close> counts the \<open>cap.read()\<close> calls that returned a frame, \<open>counts\<close> the increments of
  \<open>frame_count\<close>, and \<open>count_values\<close> lists the values the increments produced. A trace is
  in step when, at every point of it, the increments are as many as the frames read or
  one fewer, and the values produced are 1, 2, 3 and so on; the flag says whether a frame
  has been read and is not counted yet.
\<close>

definition interrupted_frame :: frame where
  "interrupted_frame = (plain_frame 320 240)\<lparr>to_terminal_raises := Some KeyboardInterrupt\<rparr>"

definition is_count :: "event \<Rightarrow> bool" where
  "is_count e = (case e of Count n \<Rightarrow> True | _ \<Rightarrow> False)"

definition reads :: "event list \<Rightarrow> nat" where
  "reads tr = length (filter (\<lambda>e. e = Read True) tr)"

definition counts :: "event list \<Rightarrow> nat" where
  "counts tr = length (filter is_count tr)"

definition count_values :: "event list \<Rightarrow> nat list" where
  "count_values tr = concat (map (\<lambda>e. case e of Count n \<Rightarrow> [n] | _ \<Rightarrow> []) tr)"

definition in_step :: "bool \<Rightarrow> nat \<Rightarrow> event list \<Rightarrow> bool" where
  "in_step b n tr \<longleftrightarrow>
     (\<forall>p. prefix p tr \<longrightarrow>
         counts p \<le> reads p \<and> reads p \<le> counts p + 1
         \<and> count_values p = [1..<Suc (counts p)])
     \<and> reads tr = counts tr + (if b then 1 else 0)
     \<and> n = counts tr"

lemma in_step_Nil: "in_step False 0 []"
  by (simp add: in_step_def reads_def counts_def count_values_def)

lemma in_step_read: "in_step False n tr \<Longrightarrow> in_step True n (tr @ [Read True])"
  by (auto simp add: in_step_def reads_def counts_def count_values_def is_count_def prefix_snoc)

lemma in_step_count: "in_step True n tr \<Longrightarrow> in_step False (Suc n) (tr @ [Count (Suc n)])"
  by (auto simp add: in_step_def reads_def counts_def count_values_def is_count_def prefix_snoc)

lemma in_step_other:
  "in_step b n tr \<Longrightarrow> e \<noteq> Read True \<Longrightarrow> \<not> is_count e \<Longrightarrow> in_step b n (tr @ [e])"
  by (cases e) (auto simp add: in_step_def reads_def counts_def count_values_def is_count_def prefix_snoc)

lemma in_step_skips:
  "in_step False n tr \<Longrightarrow> in_step False (n + k) (tr @ skips n k)"
proof (induction k arbitrary: n tr)
  case 0
  then show ?case by simp
next
  case (Suc k)
  have "in_step False (Suc n) ((tr @ [Read True]) @ [Count (Suc n)])"
    using Suc.prems by (intro in_step_count in_step_read)
  from Suc.IH [OF this] show ?case by simp
qed

lemma in_step_discard_tail:
  "in_step False n tr \<Longrightarrow> in_step False n (tr @ discard_tail m rs)"
proof -
  assume a: "in_step False n tr"
  have "discard_tail m rs = [] \<or> discard_tail m rs = [Read False]"
    by (simp add: discard_tail_def split: list.splits read_outcome.splits)
  then show ?thesis
    using a in_step_other [OF a, of "Read False"] by (auto simp add: is_count_def)
qed


definition stepped :: "bool \<Rightarrow> lstate \<Rightarrow> bool" where
  "stepped b st = in_step b (frame_count st) (trace st)"

lemma stepped_emit:
  "stepped b st \<Longrightarrow> e \<noteq> Read True \<Longrightarrow> \<not> is_count e \<Longrightarrow> stepped b (emit e st)"
  by (simp add: stepped_def emit_fields in_step_other)

lemma stepped_read: "stepped False st \<Longrightarrow> stepped True (emit (Read True) st)"
  by (simp add: stepped_def emit_fields in_step_read)

lemma stepped_count: "stepped True st \<Longrightarrow> stepped False (count_frame st)"
  by (simp add: stepped_def count_frame_fields in_step_count)

lemma stepped_cong:
  "frame_count st' = frame_count st \<Longrightarrow> trace st' = trace st \<Longrightarrow> stepped b st' = stepped b st"
  by (simp add: stepped_def)

lemma pace_unfold:
  "pace T st =
     (if 0 < slack st (clock T (Suc (ticks st))) then
        (case sleep_raises T (Suc (Suc (ticks st))) of
           Some e \<Rightarrow> (st\<lparr>ticks := Suc (Suc (ticks st))\<rparr>, Some e)
         | None \<Rightarrow> (emit (Sleep (slack st (clock T (Suc (ticks st)))))
                      (st\<lparr>ticks := Suc (Suc (ticks st))\<rparr>), None))
      else if slack st (clock T (Suc (ticks st))) < - target_frame_delay st then
        catch_up (nat (min (backlog st (clock T (Suc (ticks st)))) 3))
          (st\<lparr>ticks := Suc (Suc (ticks st))\<rparr>)
      else (st\<lparr>ticks := Suc (Suc (ticks st))\<rparr>, None))"
proof -
  let ?t = "clock T (Suc (ticks st))"
  let ?st2 = "st\<lparr>ticks := Suc (Suc (ticks st))\<rparr>"
  have sl: "slack ?st2 ?t = slack st ?t" by (simp add: slack_def)
  have bl: "backlog ?st2 ?t = backlog st ?t" by (simp add: backlog_def slack_def)
  show ?thesis
    unfolding pace_def now_def Let_def prod.case
    by (simp add: sl bl split: option.splits)
qed

lemma catch_up_stepped:
  assumes "stepped False st"
  shows "stepped False (fst (catch_up n st))"
proof -
  have tr: "trace (fst (catch_up n st))
      = (trace st @ skips (frame_count st) (discarded n (src st))) @ discard_tail n (src st)"
    and fc: "frame_count (fst (catch_up n st)) = frame_count st + discarded n (src st)"
    using catch_up_effect [of n st] by simp_all
  have "in_step False (frame_count st + discarded n (src st))
          ((trace st @ skips (frame_count st) (discarded n (src st))) @ discard_tail n (src st))"
    using assms unfolding stepped_def by (intro in_step_discard_tail in_step_skips)
  then show ?thesis unfolding stepped_def tr fc .
qed

lemma pace_stepped:
  assumes "stepped False st"
  shows "stepped False (fst (pace T st))"
proof -
  let ?st2 = "st\<lparr>ticks := Suc (Suc (ticks st))\<rparr>"
  have s2: "stepped False ?st2" using assms by (simp add: stepped_def)
  have sl: "stepped False (emit (Sleep d) ?st2)" for d
    using stepped_emit [OF s2, of "Sleep d"] by (simp add: is_count_def)
  show ?thesis
    unfolding pace_unfold
    using s2 sl catch_up_stepped [OF s2] by (simp split: option.splits)
qed

lemma convert_frame_stepped:
  assumes "stepped True st"
  shows "stepped True (snd (convert_frame f st))"
proof -
  let ?st1 = "emit WriteTempFrame (st\<lparr>temp_frame_file := True\<rparr>)"
  have a: "stepped True (st\<lparr>temp_frame_file := True\<rparr>)" using assms by (simp add: stepped_def)
  have w: "stepped True ?st1"
    using stepped_emit [OF a, of WriteTempFrame] by (simp add: is_count_def)
  have fb: "stepped True (snd (fallback f d st))" for d
    using assms w by (simp add: fallback_def Let_def split: option.splits)
  have orr: "stepped True (snd (on_raise e f d st))" for e d
    using assms fb by (simp add: on_raise_def)
  show ?thesis
    using assms orr by (simp add: convert_frame_def split: sum.splits option.splits)
qed

lemma show_frame_stepped:
  assumes "stepped True st"
  shows "stepped False (show_frame c w h tmp st)"
proof -
  let ?st1 = "emit (Display w h (min c 100)) st"
  have s1: "stepped True ?st1"
    using stepped_emit [OF assms, of "Display w h (min c 100)"] by (simp add: is_count_def)
  have s1': "stepped True (?st1\<lparr>temp_frame_file := False\<rparr>)" using s1 by (simp add: stepped_def)
  have s2: "stepped True (emit RemoveTempFrame (?st1\<lparr>temp_frame_file := False\<rparr>))"
    using stepped_emit [OF s1', of RemoveTempFrame] by (simp add: is_count_def)
  show ?thesis
    unfolding show_frame_def Let_def using s1 s2 by (simp add: stepped_count)
qed

lemma display_stepped:
  assumes "stepped True st" and "display T c f w h tmp st = (st', r)"
  shows "(r = Continue \<longrightarrow> stepped False st') \<and> (\<exists>b. stepped b st') \<and> r \<noteq> Break"
proof (cases "to_terminal_raises f")
  case (Some e)
  then show ?thesis using assms by (auto simp add: display_def)
next
  case None
  have p: "stepped False (fst (pace T (show_frame c w h tmp st)))"
    by (intro pace_stepped show_frame_stepped assms(1))
  have "st' = fst (pace T (show_frame c w h tmp st))" and "r \<noteq> Break"
    using assms(2) None by (auto simp add: display_def split: prod.splits option.splits)
  then show ?thesis using p by blast
qed

lemma iteration_stepped:
  assumes "stepped False st" and "iteration T c st = (st', r)"
  shows "(r = Continue \<or> r = Break \<longrightarrow> stepped False st') \<and> (\<exists>b. stepped b st')"
proof -
  let ?st1 = "st\<lparr>ticks := Suc (ticks st)\<rparr>"
  have s1: "stepped False ?st1" using assms(1) by (simp add: stepped_def)
  obtain ro st2 where cr: "cap_read ?st1 = (ro, st2)" by (cases "cap_read ?st1")
  have s2: "stepped False st2"
    using cr s1 by (auto simp add: cap_read_def stepped_def split: list.splits)
  show ?thesis
  proof (cases ro)
    case (Got f)
    have s3: "stepped True (emit (Read True) st2)" using s2 by (rule stepped_read)
    obtain cv st3 where c: "convert_frame f (emit (Read True) st2) = (cv, st3)"
      by (cases "convert_frame f (emit (Read True) st2)")
    have s4: "stepped True st3" using convert_frame_stepped [OF s3, of f] c by simp
    show ?thesis
    proof (cases cv)
      case (Converted w h tmp)
      have d: "display T c f w h tmp st3 = (st', r)"
        using assms(2) cr Got c Converted by (simp add: iteration_def now_def)
      show ?thesis using display_stepped [OF s4 d] by blast
    next
      case SkipFrame
      have e: "st' = count_frame (emit SkipMsg st3)" "r = Continue"
        using assms(2) cr Got c SkipFrame by (simp_all add: iteration_def now_def)
      have "stepped True (emit SkipMsg st3)"
        using stepped_emit [OF s4, of SkipMsg] by (simp add: is_count_def)
      then show ?thesis using e stepped_count by blast
    next
      case (Propagate e)
      have "st' = st3" "r = Raised e"
        using assms(2) cr Got c Propagate by (simp_all add: iteration_def now_def)
      then show ?thesis using s4 by blast
    qed
  next
    case NoFrame
    have e: "st' = emit (Read False) st2" "r = Break"
      using assms(2) cr NoFrame by (simp_all add: iteration_def now_def)
    have "stepped False (emit (Read False) st2)"
      using stepped_emit [OF s2, of "Read False"] by (simp add: is_count_def)
    then show ?thesis using e by blast
  next
    case (ReadRaises e)
    have "st' = st2" "r = Raised e"
      using assms(2) cr ReadRaises by (simp_all add: iteration_def now_def)
    then show ?thesis using s2 by blast
  qed
qed

lemma run_loop_stepped:
  "stepped False st \<Longrightarrow> run_loop T c st = (st', r) \<Longrightarrow>
     r \<noteq> Continue \<and> (r = Break \<longrightarrow> stepped False st') \<and> (\<exists>b. stepped b st')"
proof (induction T c st rule: run_loop.induct)
  case (1 T columns st)
  obtain st1 r1 where it: "iteration T columns st = (st1, r1)"
    by (cases "iteration T columns st")
  note inv = iteration_stepped [OF "1.prems"(1) it]
  show ?case
  proof (cases "r1 = Continue")
    case True
    have rl: "run_loop T columns st1 = (st', r)"
      using "1.prems"(2) it True by (subst (asm) run_loop.simps) simp
    have s1: "stepped False st1" using inv True by blast
    show ?thesis using "1.IH" [OF it [symmetric] refl True s1 rl] .
  next
    case False
    have "st' = st1" "r = r1"
      using "1.prems"(2) it False by (subst (asm) run_loop.simps, simp)+
    then show ?thesis using inv False by blast
  qed
qed


lemma render_loop_stepped:
  assumes "stepped False st0" and "render_loop T c st0 = (st, ex)"
  shows "(ex = EndOfStream \<longrightarrow> stepped False st) \<and> (\<exists>b. stepped b st)"
proof -
  obtain st1 r where rl: "run_loop T c st0 = (st1, r)" by (cases "run_loop T c st0")
  note inv = run_loop_stepped [OF assms(1) rl]
  show ?thesis
  proof (cases r)
    case Continue
    then show ?thesis using inv by simp
  next
    case Break
    then have "st = st1" "ex = EndOfStream" using assms(2) rl by (simp_all add: render_loop_def)
    then show ?thesis using inv Break by blast
  next
    case (Raised e)
    from inv obtain b where b: "stepped b st1" by blast
    have m: "stepped b (emit InterruptMsg st1)" "stepped b (emit ErrorMsg st1)"
      using stepped_emit [OF b, of InterruptMsg] stepped_emit [OF b, of ErrorMsg]
      by (simp_all add: is_count_def)
    have "ex \<noteq> EndOfStream" "st = emit InterruptMsg st1 \<or> st = emit ErrorMsg st1"
      using assms(2) rl Raised by (auto simp add: render_loop_def split: if_splits)
    then show ?thesis using m by blast
  qed
qed

text \<open>
  Claim C2, amended. Start the loop as the program does, with \<open>frame_count = 0\<close>. At
  every point of the run (every prefix of the trace) the increments of \<open>frame_count\<close>
  made so far have produced the values 1, 2, ..., each one more than the last, and their
  number is the number of frames read so far or one less: a frame is counted only after
  it has been displayed, skipped after a conversion error, or discarded in a catch-up.
  When the loop has ended, \<open>frame_count\<close> is the number of increments; it is the number of
  frames read or one less, and it is the number of frames read when the loop ended by
  end of stream.
\<close>

theorem frame_count_follows_reads:
  assumes start: "frame_count st0 = 0" "trace st0 = []"
    and run: "render_loop T columns st0 = (st, ex)"
  shows "(\<forall>p. prefix p (trace st) \<longrightarrow>
            counts p \<le> reads p \<and> reads p \<le> counts p + 1
            \<and> count_values p = [1..<Suc (counts p)])
    \<and> frame_count st = counts (trace st)
    \<and> frame_count st \<le> reads (trace st)
    \<and> reads (trace st) \<le> frame_count st + 1
    \<and> (ex = EndOfStream \<longrightarrow> frame_count st = reads (trace st))"
proof -
  have s0: "stepped False st0"
    using start in_step_Nil by (simp add: stepped_def)
  from render_loop_stepped [OF s0 run]
  obtain b where b: "stepped b st" and e: "ex = EndOfStream \<longrightarrow> stepped False st" by blast
  have p: "\<forall>p. prefix p (trace st) \<longrightarrow>
            counts p \<le> reads p \<and> reads p \<le> counts p + 1
            \<and> count_values p = [1..<Suc (counts p)]"
    and c: "frame_count st = counts (trace st)"
    and r: "reads (trace st) = counts (trace st) + (if b then 1 else 0)"
    using b by (simp_all add: stepped_def in_step_def)
  have r1: "frame_count st \<le> reads (trace st)" and r2: "reads (trace st) \<le> frame_count st + 1"
    using c r by simp_all
  have r3: "frame_count st = reads (trace st)" if "ex = EndOfStream"
    using e that by (simp add: stepped_def in_step_def)
  show ?thesis using p c r1 r2 r3 by blast
qed

theorem frame_count_follows_reads_witness:
  "frame_count skip_then_show = 0 \<and> trace skip_then_show = []
   \<and> prefix [Read True, SkipMsg] (trace (fst (render_loop frozen_clock 80 skip_then_show)))
   \<and> counts [Read True, SkipMsg] \<le> reads [Read True, SkipMsg]
   \<and> snd (render_loop frozen_clock 80 skip_then_show) = EndOfStream
   \<and> frame_count (fst (render_loop frozen_clock 80 skip_then_show))
       = reads (trace (fst (render_loop frozen_clock 80 skip_then_show)))"
proof -
  let ?r = "render_loop frozen_clock 80 skip_then_show"
  have a: "frame_count skip_then_show = 0" and b: "trace skip_then_show = []"
    by (simp_all add: skip_then_show_def fresh_state_def)
  have run: "?r = (fst ?r, snd ?r)" by simp
  have pre: "prefix [Read True, SkipMsg] (trace (fst ?r))" by code_simp
  have ex: "snd ?r = EndOfStream" by code_simp
  note th = frame_count_follows_reads [OF a b run]
  from th pre have "counts [Read True, SkipMsg] \<le> reads [Read True, SkipMsg]" by blast
  moreover from th ex have "frame_count (fst ?r) = reads (trace (fst ?r))" by blast
  ultimately show ?thesis using a b pre ex by blast
qed

text \<open>
  The claim as stated has the counter equal to the frames read at every point and after
  every exit. A frame that has been read is counted at line 194, after it is displayed;
  when \<open>to_terminal\<close> is interrupted, the loop ends with one frame read and none counted.
\<close>

theorem interrupted_frame_is_not_counted:
  "snd (render_loop frozen_clock 80 (fresh_state [Got interrupted_frame])) = Interrupted
   \<and> frame_count (fst (render_loop frozen_clock 80 (fresh_state [Got interrupted_frame]))) = 0
   \<and> reads (trace (fst (render_loop frozen_clock 80 (fresh_state [Got interrupted_frame])))) = 1
   \<and> trace (fst (render_loop frozen_clock 80 (fresh_state [Got interrupted_frame])))
       = [Read True, InterruptMsg]"
  by code_simp

section \<open>The frame delay (lines 131 to 137)\<close>

text \<open>A world for the examples: a video of two frames at 25 frames per second with an
  audio track, on a machine where every library call succeeds.\<close>

definition sample_world :: world where
  "sample_world =
     \<lparr>audio_before = (\<lambda>a. None), temp_frame_before = False, clip_load_raises = None,
      has_audio = True, stale_remove_raises = None, mp3_write = Written 4096,
      wav_write = Written 4096, audio_read_raises = None, cap_opened = True, fps = 25,
      frames = [Got (plain_frame 1280 720), Got (plain_frame 320 240)],
      time_env = frozen_clock, playsound_raises = None, audio_remove_raises = None\<rparr>"

definition same_locals :: "lstate \<Rightarrow> lstate \<Rightarrow> bool" where
  "same_locals st' st \<longleftrightarrow>
     start_time st' = start_time st \<and> target_frame_delay st' = target_frame_delay st"

lemma same_locals_refl: "same_locals st st"
  by (simp add: same_locals_def)

lemma same_locals_trans: "same_locals st2 st1 \<Longrightarrow> same_locals st1 st \<Longrightarrow> same_locals st2 st"
  by (simp add: same_locals_def)

lemma catch_up_locals: "same_locals (fst (catch_up n st)) st"
  using catch_up_effect [of n st] by (simp add: same_locals_def)

lemma pace_locals: "same_locals (fst (pace T st)) st"
proof -
  let ?st2 = "st\<lparr>ticks := Suc (Suc (ticks st))\<rparr>"
  have c: "same_locals (fst (catch_up n ?st2)) st" for n
    using catch_up_locals [of n ?st2] by (simp add: same_locals_def)
  show ?thesis
    unfolding pace_unfold using c
    by (simp add: same_locals_def emit_fields split: option.splits)
qed

lemma convert_frame_locals: "same_locals (snd (convert_frame f st)) st"
  by (simp add: convert_frame_def on_raise_def fallback_def Let_def same_locals_def emit_fields
      split: sum.splits option.splits)

lemma display_locals: "same_locals (fst (display T c f w h tmp st)) st"
proof (cases "to_terminal_raises f")
  case (Some e)
  then show ?thesis by (simp add: display_def same_locals_def)
next
  case None
  have "fst (display T c f w h tmp st) = fst (pace T (show_frame c w h tmp st))"
    using None by (simp add: display_def split: prod.splits option.splits)
  then show ?thesis
    using pace_locals [of T "show_frame c w h tmp st"]
    by (simp add: same_locals_def show_frame_fields)
qed

lemma iteration_locals: "same_locals (fst (iteration T c st)) st"
proof -
  let ?st1 = "st\<lparr>ticks := Suc (ticks st)\<rparr>"
  obtain ro st2 where cr: "cap_read ?st1 = (ro, st2)" by (cases "cap_read ?st1")
  have s2: "same_locals st2 st"
    using cr by (auto simp add: cap_read_def same_locals_def split: list.splits)
  show ?thesis
  proof (cases ro)
    case (Got f)
    obtain cv st3 where c: "convert_frame f (emit (Read True) st2) = (cv, st3)"
      by (cases "convert_frame f (emit (Read True) st2)")
    have s3: "same_locals st3 st"
      using convert_frame_locals [of f "emit (Read True) st2"] c s2
      by (simp add: same_locals_def emit_fields)
    show ?thesis
    proof (cases cv)
      case (Converted w h tmp)
      have "fst (iteration T c st) = fst (display T c f w h tmp st3)"
        using cr Got c Converted by (simp add: iteration_def now_def)
      then show ?thesis
        using display_locals [of T c f w h tmp st3] s3 by (simp add: same_locals_def)
    next
      case SkipFrame
      have "fst (iteration T c st) = count_frame (emit SkipMsg st3)"
        using cr Got c SkipFrame by (simp add: iteration_def now_def)
      then show ?thesis using s3 by (simp add: same_locals_def count_frame_fields emit_fields)
    next
      case (Propagate e)
      have "fst (iteration T c st) = st3"
        using cr Got c Propagate by (simp add: iteration_def now_def)
      then show ?thesis using s3 by simp
    qed
  next
    case NoFrame
    have "fst (iteration T c st) = emit (Read False) st2"
      using cr NoFrame by (simp add: iteration_def now_def)
    then show ?thesis using s2 by (simp add: same_locals_def emit_fields)
  next
    case (ReadRaises e)
    have "fst (iteration T c st) = st2"
      using cr ReadRaises by (simp add: iteration_def now_def)
    then show ?thesis using s2 by simp
  qed
qed

lemma run_loop_locals: "same_locals (fst (run_loop T c st)) st"
proof (induction T c st rule: run_loop.induct)
  case (1 T columns st)
  obtain st1 r1 where it: "iteration T columns st = (st1, r1)"
    by (cases "iteration T columns st")
  have s1: "same_locals st1 st" using iteration_locals [of T columns st] it by simp
  show ?case
  proof (cases "r1 = Continue")
    case True
    have "run_loop T columns st = run_loop T columns st1"
      using it True by (subst run_loop.simps) simp
    then show ?thesis
      using "1.IH" [OF it [symmetric] refl True] s1 same_locals_trans by simp
  next
    case False
    have "run_loop T columns st = (st1, r1)"
      using it False by (subst run_loop.simps) simp
    then show ?thesis using s1 by simp
  qed
qed

lemma render_loop_locals: "same_locals (fst (render_loop T c st)) st"
proof -
  obtain st1 r where rl: "run_loop T c st = (st1, r)" by (cases "run_loop T c st")
  have s1: "same_locals st1 st" using run_loop_locals [of T c st] rl by simp
  show ?thesis
    using s1 by (cases r) (simp_all add: render_loop_def rl same_locals_def emit_fields)
qed

lemma loop_result_cases:
  assumes "loop_result (video_to_ascii_cli W p ca) = Some (st, ex)"
  shows "(st, ex) = render_loop (time_env W) (case ca of None \<Rightarrow> 80 | Some c \<Rightarrow> c) (initial_lstate W)"
  using assms
  by (simp add: video_to_ascii_cli_def Let_def
      split: prod.splits sum.splits if_splits option.splits)

text \<open>
  Claim C4. The delay the session starts with is \<open>1 / fps\<close> when the reported rate is
  positive and \<open>1 / 30\<close> when it is zero (the value OpenCV reports for an unavailable
  property) or negative; it is positive in both cases. No iteration changes it, the loop
  with its handlers ends with the delay it started with, and so does every run of the
  whole function that enters the loop.
\<close>

theorem delay_fixed_for_session:
  "(0 < fps W \<longrightarrow> target_frame_delay (initial_lstate W) = 1 / fps W)
   \<and> (fps W \<le> 0 \<longrightarrow> target_frame_delay (initial_lstate W) = 1 / 30)
   \<and> 0 < target_frame_delay (initial_lstate W)
   \<and> target_frame_delay (fst (iteration T c st)) = target_frame_delay st
   \<and> target_frame_delay (fst (render_loop T c st)) = target_frame_delay st
   \<and> (loop_result (video_to_ascii_cli W p ca) = Some (st', ex) \<longrightarrow>
        target_frame_delay st' = delay_of_fps (fps W))"
proof -
  have a: "target_frame_delay (initial_lstate W) = delay_of_fps (fps W)"
    by (simp add: initial_lstate_def)
  have b: "0 < delay_of_fps (fps W)" by (simp add: delay_of_fps_def)
  have c: "target_frame_delay (fst (iteration T c st)) = target_frame_delay st"
    using iteration_locals [of T c st] by (simp add: same_locals_def)
  have d: "target_frame_delay (fst (render_loop T c st)) = target_frame_delay st" for T c st
    using render_loop_locals [of T c st] by (simp add: same_locals_def)
  have e: "target_frame_delay st' = delay_of_fps (fps W)"
    if "loop_result (video_to_ascii_cli W p ca) = Some (st', ex)"
  proof -
    from loop_result_cases [OF that]
    have "st' = fst (render_loop (time_env W) (case ca of None \<Rightarrow> 80 | Some c \<Rightarrow> c) (initial_lstate W))"
      by (metis fst_conv)
    then show ?thesis using d a by simp
  qed
  show ?thesis using a b c d e by (simp add: delay_of_fps_def)
qed

theorem delay_fixed_for_session_witness:
  "0 < fps sample_world
   \<and> target_frame_delay (initial_lstate sample_world) = 1 / 25
   \<and> fps (sample_world\<lparr>fps := 0\<rparr>) \<le> 0
   \<and> target_frame_delay (initial_lstate (sample_world\<lparr>fps := 0\<rparr>)) = 1 / 30
   \<and> loop_result (video_to_ascii_cli sample_world ''v.mp4'' None) \<noteq> None
   \<and> target_frame_delay (fst (the (loop_result (video_to_ascii_cli sample_world ''v.mp4'' None))))
       = 1 / 25"
proof -
  let ?r = "loop_result (video_to_ascii_cli sample_world ''v.mp4'' None)"
  have a: "0 < fps sample_world" and f: "fps sample_world = 25"
    by (simp_all add: sample_world_def)
  have b: "fps (sample_world\<lparr>fps := 0\<rparr>) \<le> 0" by simp
  have n: "?r \<noteq> None" by code_simp
  then have lr: "?r = Some (fst (the ?r), snd (the ?r))" by simp
  have d: "delay_of_fps 25 = 1 / 25" by (simp add: delay_of_fps_def)
  from delay_fixed_for_session [of sample_world _ _ _ "''v.mp4''" None "fst (the ?r)" "snd (the ?r)"] a lr
  have 1: "target_frame_delay (initial_lstate sample_world) = 1 / 25"
    and 2: "target_frame_delay (fst (the ?r)) = 1 / 25"
    by (simp_all add: f d)
  from delay_fixed_for_session [of "sample_world\<lparr>fps := 0\<rparr>"] b
  have 3: "target_frame_delay (initial_lstate (sample_world\<lparr>fps := 0\<rparr>)) = 1 / 30"
    by simp
  show ?thesis using a b n 1 2 3 by blast
qed

section \<open>What is displayed (lines 9, 170 to 189, 233 to 240)\<close>

text \<open>
  \<open>sized f w h\<close>: the image made from frame \<open>f\<close> has \<open>w\<close> by \<open>h\<close> pixels, which are the
  dimensions after the optional resize, or those of the frame as read when the resize
  itself raised \<open>AttributeError\<close> and the fallback took the frame over. \<open>extends\<close> relates
  a state to a later one: the trace has grown by events of the loop, and every display
  that was added shows a frame of the source at \<open>min columns 100\<close> columns.
\<close>

definition is_display :: "event \<Rightarrow> bool" where
  "is_display e = (case e of Display w h k \<Rightarrow> True | _ \<Rightarrow> False)"

definition in_loop :: "event \<Rightarrow> bool" where
  "in_loop e =
     (case e of
        Read b \<Rightarrow> True | Count n \<Rightarrow> True | Display w h k \<Rightarrow> True | SkipMsg \<Rightarrow> True
      | Sleep d \<Rightarrow> True | WriteTempFrame \<Rightarrow> True | RemoveTempFrame \<Rightarrow> True
      | InterruptMsg \<Rightarrow> True | ErrorMsg \<Rightarrow> True | _ \<Rightarrow> False)"

definition sized :: "frame \<Rightarrow> int \<Rightarrow> int \<Rightarrow> bool" where
  "sized f w h \<longleftrightarrow>
     shrink f = Inr (w, h)
     \<or> (shrink f = Inl AttributeError \<and> w = width f \<and> h = height f)"

definition shown_from :: "int \<Rightarrow> read_outcome list \<Rightarrow> event \<Rightarrow> bool" where
  "shown_from c rs e \<longleftrightarrow>
     (\<exists>f w h. e = Display w h (min c 100) \<and> Got f \<in> set rs \<and> sized f w h)"

definition extends :: "int \<Rightarrow> lstate \<Rightarrow> lstate \<Rightarrow> bool" where
  "extends c st st' \<longleftrightarrow>
     (\<exists>evs. trace st' = trace st @ evs
        \<and> (\<forall>e \<in> set evs. in_loop e \<and> (is_display e \<longrightarrow> shown_from c (src st) e)))
     \<and> set (src st') \<subseteq> set (src st)"

lemma extends_refl: "extends c st st"
  by (simp add: extends_def)

lemma extends_trans:
  assumes "extends c st st1" and "extends c st1 st2"
  shows "extends c st st2"
proof -
  from assms(1) obtain e1 where e1: "trace st1 = trace st @ e1"
    "\<forall>e \<in> set e1. in_loop e \<and> (is_display e \<longrightarrow> shown_from c (src st) e)" and s1: "set (src st1) \<subseteq> set (src st)"
    unfolding extends_def by blast
  from assms(2) obtain e2 where e2: "trace st2 = trace st1 @ e2"
    "\<forall>e \<in> set e2. in_loop e \<and> (is_display e \<longrightarrow> shown_from c (src st1) e)" and s2: "set (src st2) \<subseteq> set (src st1)"
    unfolding extends_def by blast
  have mono: "shown_from c (src st1) e \<Longrightarrow> shown_from c (src st) e" for e
    using s1 unfolding shown_from_def by blast
  have "trace st2 = trace st @ (e1 @ e2)" using e1(1) e2(1) by simp
  moreover have "\<forall>e \<in> set (e1 @ e2). in_loop e \<and> (is_display e \<longrightarrow> shown_from c (src st) e)"
    using e1(2) e2(2) mono by auto
  moreover have "set (src st2) \<subseteq> set (src st)" using s1 s2 by blast
  ultimately show ?thesis unfolding extends_def by blast
qed

lemma extends_emit: "in_loop e \<Longrightarrow> \<not> is_display e \<Longrightarrow> extends c st (emit e st)"
  by (simp add: extends_def emit_fields)

lemma extends_quiet:
  assumes "trace st' = trace st @ evs" and "\<forall>e \<in> set evs. in_loop e \<and> \<not> is_display e"
    and "set (src st') \<subseteq> set (src st)"
  shows "extends c st st'"
  using assms unfolding extends_def by blast

lemma skips_quiet: "\<forall>e \<in> set (skips n k). in_loop e \<and> \<not> is_display e"
  by (induction k arbitrary: n) (simp_all add: is_display_def in_loop_def)

lemma discard_tail_quiet: "\<forall>e \<in> set (discard_tail m rs). in_loop e \<and> \<not> is_display e"
  by (simp add: discard_tail_def is_display_def in_loop_def split: list.splits read_outcome.splits)

lemma cap_read_subset: "set (src (snd (cap_read st))) \<subseteq> set (src st)"
  by (auto simp add: cap_read_def split: list.splits)

lemma catch_up_subset: "set (src (fst (catch_up n st))) \<subseteq> set (src st)"
proof (induction n arbitrary: st)
  case 0
  then show ?case by simp
next
  case (Suc n)
  obtain r st1 where r: "cap_read st = (r, st1)" by (cases "cap_read st")
  have le: "set (src st1) \<subseteq> set (src st)" using cap_read_subset [of st] r by simp
  show ?case
  proof (cases r)
    case (Got f)
    have "set (src (fst (catch_up n (count_frame (emit (Read True) st1)))))
          \<subseteq> set (src (count_frame (emit (Read True) st1)))" by (rule Suc.IH)
    then show ?thesis using r Got le by (simp add: count_frame_fields emit_fields)
  next
    case NoFrame
    then show ?thesis using r le by (simp add: emit_fields)
  next
    case (ReadRaises e)
    then show ?thesis using r le by simp
  qed
qed

lemma catch_up_extends: "extends c st (fst (catch_up n st))"
proof -
  have tr: "trace (fst (catch_up n st))
      = trace st @ (skips (frame_count st) (discarded n (src st)) @ discard_tail n (src st))"
    using catch_up_effect [of n st] by simp
  have q: "\<forall>e \<in> set (skips (frame_count st) (discarded n (src st)) @ discard_tail n (src st)).
      in_loop e \<and> \<not> is_display e"
    using skips_quiet discard_tail_quiet by auto
  show ?thesis by (rule extends_quiet [OF tr q catch_up_subset])
qed

lemma extends_fields:
  "trace st1 = trace st \<Longrightarrow> src st1 = src st \<Longrightarrow> extends c st1 st' \<Longrightarrow> extends c st st'"
  by (simp add: extends_def)

lemma pace_extends: "extends c st (fst (pace T st))"
proof -
  let ?st2 = "st\<lparr>ticks := Suc (Suc (ticks st))\<rparr>"
  have a: "extends c st ?st2" by (simp add: extends_def)
  have b: "extends c st (emit (Sleep d) ?st2)" for d
    by (simp add: extends_def emit_fields is_display_def in_loop_def)
  have cc: "extends c st (fst (catch_up n ?st2))" for n
    by (rule extends_fields [OF _ _ catch_up_extends [of c ?st2 n]]) simp_all
  show ?thesis
    unfolding pace_unfold using a b cc by (simp split: option.splits)
qed


lemma fallback_sized:
  "fallback f d st = (Converted w h tmp, st') \<Longrightarrow> (w, h) = d"
  by (auto simp add: fallback_def Let_def split: option.splits)

lemma convert_frame_sized:
  assumes "convert_frame f st = (Converted w h tmp, st')"
  shows "sized f w h"
proof (cases "shrink f")
  case (Inl e)
  have "on_raise e f (width f, height f) st = (Converted w h tmp, st')"
    using assms Inl by (simp add: convert_frame_def)
  then have "e = AttributeError \<and> (w, h) = (width f, height f)"
    using fallback_sized [of f "(width f, height f)" st w h tmp st']
    by (auto simp add: on_raise_def split: if_splits)
  then show ?thesis using Inl by (simp add: sized_def)
next
  case (Inr d)
  show ?thesis
  proof (cases "from_array_raises f")
    case None
    then have "(w, h) = d" using assms Inr by (auto simp add: convert_frame_def)
    then show ?thesis using Inr by (auto simp add: sized_def)
  next
    case (Some e)
    have "on_raise e f d st = (Converted w h tmp, st')"
      using assms Inr Some by (simp add: convert_frame_def)
    then have "(w, h) = d"
      using fallback_sized [of f d st w h tmp st']
      by (auto simp add: on_raise_def split: if_splits)
    then show ?thesis using Inr by (auto simp add: sized_def)
  qed
qed

lemma convert_frame_extends: "extends c st (snd (convert_frame f st))"
proof -
  let ?st1 = "emit WriteTempFrame (st\<lparr>temp_frame_file := True\<rparr>)"
  have w: "extends c st ?st1" by (simp add: extends_def emit_fields is_display_def in_loop_def)
  have fb: "extends c st (snd (fallback f d st))" for d
    using w extends_refl [of c st] by (simp add: fallback_def Let_def split: option.splits)
  have orr: "extends c st (snd (on_raise e f d st))" for e d
    using fb extends_refl [of c st] by (simp add: on_raise_def)
  show ?thesis
    using orr extends_refl [of c st] by (simp add: convert_frame_def split: sum.splits option.splits)
qed

lemma show_frame_trace:
  "\<exists>evs. trace (show_frame c w h tmp st) = trace st @ Display w h (min c 100) # evs
     \<and> (\<forall>e \<in> set evs. in_loop e \<and> \<not> is_display e)"
  by (simp add: show_frame_def Let_def count_frame_fields emit_fields is_display_def in_loop_def)

lemma iteration_extends: "extends c st (fst (iteration T c st))"
proof -
  let ?st1 = "st\<lparr>ticks := Suc (ticks st)\<rparr>"
  obtain ro st2 where cr: "cap_read ?st1 = (ro, st2)" by (cases "cap_read ?st1")
  have s2: "extends c st st2"
    using cr by (auto simp add: cap_read_def extends_def split: list.splits)
  show ?thesis
  proof (cases ro)
    case (Got f)
    have fin: "Got f \<in> set (src st)"
      using cr Got by (auto simp add: cap_read_def split: list.splits)
    let ?st2' = "emit (Read True) st2"
    have s2': "extends c st2 ?st2'" by (rule extends_emit) (simp_all add: is_display_def in_loop_def)
    obtain cv st3 where cv: "convert_frame f ?st2' = (cv, st3)"
      by (cases "convert_frame f ?st2'")
    have s3: "extends c ?st2' st3" using convert_frame_extends [of c ?st2' f] cv by simp
    have s03: "extends c st st3" by (rule extends_trans [OF extends_trans [OF s2 s2'] s3])
    have src3: "src st3 = src st2"
      using convert_frame_src [of f ?st2'] cv by (simp add: emit_fields)
    show ?thesis
    proof (cases cv)
      case (Converted w h tmp)
      have eq: "fst (iteration T c st) = fst (display T c f w h tmp st3)"
        using cr Got cv Converted by (simp add: iteration_def now_def)
      have sz: "sized f w h" using convert_frame_sized cv Converted by blast
      have "shown_from c (src st) (Display w h (min c 100))"
        using fin sz unfolding shown_from_def by blast
      obtain evs0 where t0: "trace st3 = trace st @ evs0"
        and q0: "\<forall>e \<in> set evs0. in_loop e \<and> (is_display e \<longrightarrow> shown_from c (src st) e)"
        and sub0: "set (src st3) \<subseteq> set (src st)"
        using s03 unfolding extends_def by blast
      show ?thesis
      proof (cases "to_terminal_raises f")
        case (Some e)
        then show ?thesis unfolding eq using s03 by (simp add: display_def)
      next
        case None
        let ?st4 = "show_frame c w h tmp st3"
        have eq2: "fst (display T c f w h tmp st3) = fst (pace T ?st4)"
          using None by (simp add: display_def split: prod.splits option.splits)
        obtain evs where tr: "trace ?st4 = trace st3 @ Display w h (min c 100) # evs"
          and q: "\<forall>e \<in> set evs. in_loop e \<and> \<not> is_display e"
          using show_frame_trace [of c w h tmp st3] by blast
        have a: "extends c st ?st4"
          unfolding extends_def
          using tr q t0 q0 sub0 \<open>shown_from c (src st) (Display w h (min c 100))\<close>
          by (auto simp add: show_frame_fields in_loop_def)
        show ?thesis unfolding eq eq2 by (rule extends_trans [OF a pace_extends])
      qed
    next
      case SkipFrame
      have eq: "fst (iteration T c st) = count_frame (emit SkipMsg st3)"
        using cr Got cv SkipFrame by (simp add: iteration_def now_def)
      have "extends c st3 (count_frame (emit SkipMsg st3))"
        by (simp add: extends_def count_frame_fields emit_fields is_display_def in_loop_def)
      then show ?thesis unfolding eq using s03 extends_trans by blast
    next
      case (Propagate e)
      have "fst (iteration T c st) = st3"
        using cr Got cv Propagate by (simp add: iteration_def now_def)
      then show ?thesis using s03 by simp
    qed
  next
    case NoFrame
    have eq: "fst (iteration T c st) = emit (Read False) st2"
      using cr NoFrame by (simp add: iteration_def now_def)
    have "extends c st2 (emit (Read False) st2)"
      by (rule extends_emit) (simp_all add: is_display_def in_loop_def)
    then show ?thesis unfolding eq using s2 extends_trans by blast
  next
    case (ReadRaises e)
    have "fst (iteration T c st) = st2"
      using cr ReadRaises by (simp add: iteration_def now_def)
    then show ?thesis using s2 by simp
  qed
qed

lemma run_loop_extends: "extends c st (fst (run_loop T c st))"
proof (induction T c st rule: run_loop.induct)
  case (1 T columns st)
  obtain st1 r1 where it: "iteration T columns st = (st1, r1)"
    by (cases "iteration T columns st")
  have s1: "extends columns st st1" using iteration_extends [of columns st T] it by simp
  show ?case
  proof (cases "r1 = Continue")
    case True
    have "run_loop T columns st = run_loop T columns st1"
      using it True by (subst run_loop.simps) simp
    then show ?thesis
      using "1.IH" [OF it [symmetric] refl True] s1 extends_trans by simp
  next
    case False
    have "run_loop T columns st = (st1, r1)"
      using it False by (subst run_loop.simps) simp
    then show ?thesis using s1 by simp
  qed
qed

lemma render_loop_extends: "extends c st (fst (render_loop T c st))"
proof -
  obtain st1 r where rl: "run_loop T c st = (st1, r)" by (cases "run_loop T c st")
  have s1: "extends c st st1" using run_loop_extends [of c st T] rl by simp
  have m: "extends c st1 (emit InterruptMsg st1)" "extends c st1 (emit ErrorMsg st1)"
    by (rule extends_emit, simp_all add: is_display_def in_loop_def)+
  have "fst (render_loop T c st) = st1 \<or> fst (render_loop T c st) = emit InterruptMsg st1
        \<or> fst (render_loop T c st) = emit ErrorMsg st1"
    by (cases r) (simp_all add: render_loop_def rl)
  then show ?thesis using s1 m extends_trans by metis
qed


lemma start_playback_quiet: "\<forall>e \<in> set (fst (start_playback W ap)). \<not> is_display e"
  by (simp add: start_playback_def is_display_def split: option.splits)

lemma teardown_quiet: "\<forall>e \<in> set (fst (teardown W ap fs)). \<not> is_display e"
  by (simp add: teardown_def is_display_def split: option.splits)

lemma initial_loop_displays:
  assumes "is_display e" and "e \<in> set (trace (fst (render_loop T c (initial_lstate W))))"
  shows "shown_from c (frames W) e"
proof -
  have "extends c (initial_lstate W) (fst (render_loop T c (initial_lstate W)))"
    by (rule render_loop_extends)
  then show ?thesis
    using assms unfolding extends_def by (auto simp add: initial_lstate_def)
qed

definition columns_of :: "int option \<Rightarrow> int" where
  "columns_of columns_arg = (case columns_arg of None \<Rightarrow> 80 | Some c \<Rightarrow> c)"

lemma cli_displays:
  assumes d: "is_display e" and e: "e \<in> set (events (video_to_ascii_cli W p ca))"
  shows "shown_from (columns_of ca) (frames W) e"
proof -
  let ?c = "columns_of ca"
  obtain a fs where pa: "prepare_audio W (audio_before W) = (a, fs)"
    by (cases "prepare_audio W (audio_before W)")
  show ?thesis
  proof (cases a)
    case (Inl x)
    then show ?thesis using e pa by (simp add: video_to_ascii_cli_def)
  next
    case (Inr ap)
    show ?thesis
    proof (cases "cap_opened W")
      case False
      then show ?thesis using d e pa Inr by (auto simp add: video_to_ascii_cli_def is_display_def)
    next
      case True
      obtain evs u where sp: "start_playback W ap = (evs, u)" by (cases "start_playback W ap")
      have qe: "\<forall>x \<in> set evs. \<not> is_display x" using start_playback_quiet [of W ap] sp by simp
      show ?thesis
      proof (cases u)
        case (Some x)
        have "events (video_to_ascii_cli W p ca) = OpenVideo p # evs"
          using pa Inr True sp Some by (simp add: video_to_ascii_cli_def)
        then show ?thesis using d e qe by (auto simp add: is_display_def)
      next
        case None
        obtain st ex where rl: "render_loop (time_env W) ?c (initial_lstate W) = (st, ex)"
          by (cases "render_loop (time_env W) ?c (initial_lstate W)")
        obtain tevs fs1 u1 where td: "teardown W ap fs = (tevs, fs1, u1)"
          by (cases "teardown W ap fs") auto
        have qt: "\<forall>x \<in> set tevs. \<not> is_display x" using teardown_quiet [of W ap fs] td by simp
        have ev: "events (video_to_ascii_cli W p ca) = OpenVideo p # evs @ trace st @ tevs"
          using pa Inr True sp None rl td
          by (simp add: video_to_ascii_cli_def columns_of_def)
        have "e \<in> set (trace st)"
          using d e qe qt unfolding ev by (auto simp add: is_display_def)
        then show ?thesis
          using initial_loop_displays [OF d, of "time_env W" ?c W] rl by simp
      qed
    qed
  qed
qed

text \<open>
  Claim C9, amended. \<open>columns\<close> is the optional second parameter of the function
  \<open>video_to_ascii_cli\<close>, 80 when it is not given. Every frame a call displays is displayed
  at \<open>min columns 100\<close> columns, which is at most 100. The command line has no column
  width: the script takes exactly one argument, the video path, and calls the function
  with it and no column width, so it displays at 80 columns; with any other number of
  arguments, a column width after the path included, it prints the usage lines and exits
  with status 1.
\<close>

theorem display_width_capped:
  "(Display w h k \<in> set (events (video_to_ascii_cli W p columns_arg)) \<longrightarrow>
      k = min (columns_of columns_arg) 100 \<and> k \<le> 100)
   \<and> columns_of None = 80
   \<and> video_to_ascii_cli W p None = video_to_ascii_cli W p (Some 80)
   \<and> (length argv \<noteq> 2 \<longrightarrow> main W argv = (Exit 1, [UsageMsg]))
   \<and> snd (main W [a0, p]) = events (video_to_ascii_cli W p None)
   \<and> (Display w h k \<in> set (snd (main W argv)) \<longrightarrow> k = 80)"
proof -
  have a: "k = min (columns_of ca) 100 \<and> k \<le> 100"
    if "Display w h k \<in> set (events (video_to_ascii_cli W p ca))" for p ca
    using cli_displays [OF _ that] by (auto simp add: is_display_def shown_from_def)
  have b: "columns_of None = 80" by (simp add: columns_of_def)
  have c: "video_to_ascii_cli W p None = video_to_ascii_cli W p (Some 80)"
    by (simp add: video_to_ascii_cli_def)
  have d: "main W argv = (Exit 1, [UsageMsg])" if "length argv \<noteq> 2"
    using that by (simp add: main_def)
  have e: "snd (main W [a0, p]) = events (video_to_ascii_cli W p None)"
    by (simp add: main_def Let_def split: option.splits)
  have f: "k = 80" if m: "Display w h k \<in> set (snd (main W argv))"
  proof (cases "length argv = 2")
    case False
    then show ?thesis using m by (simp add: main_def)
  next
    case True
    then have "snd (main W argv) = events (video_to_ascii_cli W (argv ! 1) None)"
      by (simp add: main_def Let_def split: option.splits)
    then show ?thesis using a [of "argv ! 1" None] m b by simp
  qed
  show ?thesis using a b c d e f by blast
qed

theorem display_width_capped_witness:
  "Display 640 360 80 \<in> set (events (video_to_ascii_cli sample_world ''v.mp4'' None))
   \<and> (80 :: int) = min (columns_of None) 100
   \<and> length [''acvp.py''] \<noteq> 2
   \<and> main sample_world [''acvp.py''] = (Exit 1, [UsageMsg])
   \<and> Display 640 360 80 \<in> set (snd (main sample_world [''acvp.py'', ''v.mp4'']))"
proof -
  have m: "Display 640 360 80 \<in> set (events (video_to_ascii_cli sample_world ''v.mp4'' None))"
    by code_simp
  note th = display_width_capped [of 640 360 80 sample_world "''v.mp4''" None "[''acvp.py'']" "''acvp.py''"]
  have 1: "(80 :: int) = min (columns_of None) 100" using th m by blast
  have 2: "main sample_world [''acvp.py''] = (Exit 1, [UsageMsg])" using th by simp
  have 3: "snd (main sample_world [''acvp.py'', ''v.mp4''])
      = events (video_to_ascii_cli sample_world ''v.mp4'' None)" using th by blast
  have 4: "Display 640 360 80 \<in> set (snd (main sample_world [''acvp.py'', ''v.mp4'']))"
    unfolding 3 by (rule m)
  have 5: "length [''acvp.py''] \<noteq> 2" by simp
  show ?thesis by (intro conjI m 1 2 4 5)
qed

text \<open>
  The claim as stated has the command line accept an optional column width. Lines 234 to
  236 refuse every argument list that is not the script name and one path: given a width
  of 60 after the path, the script prints the usage lines and exits with status 1, and
  nothing is displayed. Without the width the same video is displayed, at 80 columns.
\<close>

theorem column_width_argument_is_rejected:
  "main sample_world [''acvp.py'', ''v.mp4'', ''60''] = (Exit 1, [UsageMsg])
   \<and> fst (main sample_world [''acvp.py'', ''v.mp4'']) = Exit 0
   \<and> Display 640 360 80 \<in> set (snd (main sample_world [''acvp.py'', ''v.mp4'']))"
  by code_simp

subsection \<open>The resize of lines 170 to 175\<close>




















section \<open>A frame whose conversion fails (lines 168 to 186)\<close>

definition fallback_fails_frame :: frame where
  "fallback_fails_frame =
     (plain_frame 320 240)\<lparr>from_array_raises := Some AttributeError,
                            from_image_raises := Some OtherException\<rparr>"

text \<open>
  An exception of the \<open>try\<close> body that is an \<open>Exception\<close> other than \<open>AttributeError\<close>
  reaches the clause of line 183: the frame is counted, nothing is displayed, and the
  loop goes on to the next read.
\<close>

lemma conversion_error_is_skipped:
  assumes s: "src st = Got f # rs"
    and e: "is_Exception e" "e \<noteq> AttributeError"
    and r: "shrink f = Inl e \<or> (\<exists>d. shrink f = Inr d \<and> from_array_raises f = Some e)"
  shows "iteration T c st =
     (count_frame (emit SkipMsg (emit (Read True) (st\<lparr>ticks := Suc (ticks st), src := rs\<rparr>))),
      Continue)"
proof -
  have cv: "convert_frame f st' = (SkipFrame, st')" for st'
    using e r by (auto simp add: convert_frame_def on_raise_def)
  show ?thesis
    using s by (simp add: iteration_def now_def cap_read_def cv)
qed

text \<open>
  Claim C5 fails on the code when the conversion that fails is the fallback of lines 180
  to 182. An \<open>AttributeError\<close> from \<open>AsciiArt.from_array\<close> enters the first handler; what
  \<open>cv2.imwrite\<close> or \<open>AsciiArt.from_image\<close> raises there is not caught by the sibling clause
  \<open>except Exception\<close> of the same \<open>try\<close>, so it leaves the \<open>while\<close> loop through the
  handler of line 215. With a source of two frames whose first frame fails in the
  fallback, the loop ends faulted after one read: the frame is not counted and the second
  frame is never read.
\<close>

theorem fallback_failure_halts_loop:
  "snd (render_loop frozen_clock 80
          (fresh_state [Got fallback_fails_frame, Got (plain_frame 320 240)]))
     = Faulted OtherException
   \<and> frame_count (fst (render_loop frozen_clock 80
          (fresh_state [Got fallback_fails_frame, Got (plain_frame 320 240)]))) = 0
   \<and> trace (fst (render_loop frozen_clock 80
          (fresh_state [Got fallback_fails_frame, Got (plain_frame 320 240)])))
     = [Read True, WriteTempFrame, ErrorMsg]
   \<and> src (fst (render_loop frozen_clock 80
          (fresh_state [Got fallback_fails_frame, Got (plain_frame 320 240)])))
     = [Got (plain_frame 320 240)]"
  by code_simp

section \<open>Teardown (lines 191, 192 and 219 to 228)\<close>

definition fallback_interrupted_frame :: frame where
  "fallback_interrupted_frame =
     (plain_frame 320 240)\<lparr>from_array_raises := Some AttributeError,
                            to_terminal_raises := Some KeyboardInterrupt\<rparr>"

text \<open>
  Claim C7 fails on the code for the single-frame image. \<open>Temp/temp_frame.png\<close> is removed
  at line 192 only, after \<open>to_terminal\<close> has returned; the \<open>finally\<close> clause releases the
  capture and removes the audio file but not the image. When the user interrupts while a
  frame converted through the fallback is being printed, the run ends cleanly with the
  image still on disk.
\<close>

theorem interrupt_leaves_temp_frame:
  "temp_frame_before (sample_world\<lparr>frames := [Got fallback_interrupted_frame]\<rparr>) = False
   \<and> uncaught (video_to_ascii_cli (sample_world\<lparr>frames := [Got fallback_interrupted_frame]\<rparr>)
        ''v.mp4'' None) = None
   \<and> events (video_to_ascii_cli (sample_world\<lparr>frames := [Got fallback_interrupted_frame]\<rparr>)
        ''v.mp4'' None)
     = [OpenVideo ''v.mp4'', Play Mp3, Read True, WriteTempFrame, InterruptMsg, Release,
        RemoveAudio Mp3]
   \<and> snd (the (loop_result (video_to_ascii_cli
        (sample_world\<lparr>frames := [Got fallback_interrupted_frame]\<rparr>) ''v.mp4'' None)))
     = Interrupted
   \<and> temp_frame_file (fst (the (loop_result (video_to_ascii_cli
        (sample_world\<lparr>frames := [Got fallback_interrupted_frame]\<rparr>) ''v.mp4'' None))))
     = True"
  by code_simp

text \<open>
  An audio file that was written and then rejected (here: an empty file) stays as well:
  \<open>audio_path\<close> is reset to \<open>None\<close> at line 96, so the \<open>finally\<close> clause no longer knows it.
\<close>

lemma rejected_audio_file_stays:
  "audio_path (video_to_ascii_cli (sample_world\<lparr>mp3_write := Written 0\<rparr>) ''v.mp4'' None) = None
   \<and> audio_after (video_to_ascii_cli (sample_world\<lparr>mp3_write := Written 0\<rparr>) ''v.mp4'' None) Mp3
     = Some 0
   \<and> events (video_to_ascii_cli (sample_world\<lparr>mp3_write := Written 0\<rparr>) ''v.mp4'' None)
     = [OpenVideo ''v.mp4'', Read True, Display 640 360 80, Count 1, Sleep (1 / 25),
        Read True, Display 320 240 80, Count 2, Sleep (2 / 25), Read False, Release]"
  by code_simp

section \<open>Failures of the audio stage (lines 23 to 122 and 150 to 157)\<close>

text \<open>
  The handlers of the audio stage catch \<open>Exception\<close>. A \<open>KeyboardInterrupt\<close> raised by one
  of its calls is not a failure of the stage but an interruption before the loop has
  begun, and it leaves the function; the statements below are about worlds in which no
  call of the audio stage is interrupted.
\<close>

definition deaf_world :: world where
  "deaf_world = sample_world\<lparr>mp3_write := WriteRaises OtherException,
                              wav_write := WriteRaises OtherException\<rparr>"

definition mute_world :: world where
  "mute_world = sample_world\<lparr>playsound_raises := Some OtherException\<rparr>"

definition closed_world :: world where
  "closed_world = sample_world\<lparr>cap_opened := False\<rparr>"

definition interrupted_world :: world where
  "interrupted_world = sample_world\<lparr>frames := [Got interrupted_frame]\<rparr>"

definition audio_calls_uninterrupted :: "world \<Rightarrow> bool" where
  "audio_calls_uninterrupted W \<longleftrightarrow>
     clip_load_raises W \<noteq> Some KeyboardInterrupt
     \<and> stale_remove_raises W \<noteq> Some KeyboardInterrupt
     \<and> mp3_write W \<noteq> WriteRaises KeyboardInterrupt
     \<and> wav_write W \<noteq> WriteRaises KeyboardInterrupt
     \<and> audio_read_raises W \<noteq> Some KeyboardInterrupt
     \<and> playsound_raises W \<noteq> Some KeyboardInterrupt
     \<and> audio_remove_raises W \<noteq> Some KeyboardInterrupt"

lemma extract_audio_returns:
  assumes "audio_calls_uninterrupted W"
  shows "\<exists>ap fs1. extract_audio W fs = (Inr ap, fs1)"
  using assms
  by (cases "mp3_write W"; cases "wav_write W")
     (auto simp add: extract_audio_def write_audiofile_def is_Exception_def
        audio_calls_uninterrupted_def)

lemma extract_audio_both_fail:
  assumes "audio_calls_uninterrupted W" "mp3_write W = WriteRaises e1" "wav_write W = WriteRaises e2"
  shows "extract_audio W fs = (Inr None, fs)"
  using assms
  by (auto simp add: extract_audio_def write_audiofile_def is_Exception_def
        audio_calls_uninterrupted_def)

lemma extract_audio_mp3:
  "mp3_write W = NotWritten \<Longrightarrow> extract_audio W fs = (Inr (Some Mp3), fs)"
  "mp3_write W = Written n \<Longrightarrow> extract_audio W fs = (Inr (Some Mp3), fs(Mp3 \<mapsto> n))"
  by (simp_all add: extract_audio_def write_audiofile_def)

lemma guarded_extract_eq:
  assumes "audio_calls_uninterrupted W"
  shows "guarded_extract W fs = extract_audio W fs"
  using extract_audio_returns [OF assms, of fs] by (auto simp add: guarded_extract_def)

lemma verify_returns:
  assumes "audio_calls_uninterrupted W"
  shows "\<exists>ap'. verify W ap fs = Inr ap'"
  using assms
  by (auto simp add: verify_def is_Exception_def audio_calls_uninterrupted_def
        split: option.splits)

lemma verify_rejects:
  assumes "audio_calls_uninterrupted W"
    and "fs a = None \<or> fs a = Some 0 \<or> audio_read_raises W \<noteq> None"
  shows "verify W (Some a) fs = Inr None"
  using assms
  by (auto simp add: verify_def is_Exception_def audio_calls_uninterrupted_def
        split: option.splits)

lemma remove_stale_cases:
  "remove_stale W fs = Inl e \<Longrightarrow> stale_remove_raises W = Some e"
  "remove_stale W fs = Inr fs1 \<Longrightarrow> fs1 Mp3 = None"
  by (auto simp add: remove_stale_def split: if_splits option.splits)

lemma prepare_audio_returns:
  assumes u: "audio_calls_uninterrupted W"
  shows "\<exists>ap fs1. prepare_audio W fs = (Inr ap, fs1)"
proof -
  obtain b fs2 where ab: "audio_body W fs = (b, fs2)" by (cases "audio_body W fs")
  have "b \<noteq> Inl KeyboardInterrupt"
  proof (cases "clip_load_raises W")
    case (Some e)
    then show ?thesis using ab u by (auto simp add: audio_body_def audio_calls_uninterrupted_def)
  next
    case None
    show ?thesis
    proof (cases "has_audio W")
      case False
      then show ?thesis using ab None by (auto simp add: audio_body_def)
    next
      case True
      show ?thesis
      proof (cases "remove_stale W fs")
        case (Inl e)
        then have "e \<noteq> KeyboardInterrupt"
          using remove_stale_cases(1) [OF Inl] u by (auto simp add: audio_calls_uninterrupted_def)
        then show ?thesis using ab None True Inl by (auto simp add: audio_body_def)
      next
        case (Inr fs1)
        obtain ap fs3 where ex: "extract_audio W fs1 = (Inr ap, fs3)"
          using extract_audio_returns [OF u] by blast
        obtain ap' where v: "verify W ap fs3 = Inr ap'" using verify_returns [OF u] by blast
        show ?thesis
          using ab None True Inr ex v by (auto simp add: audio_body_def guarded_extract_eq [OF u])
      qed
    qed
  qed
  then show ?thesis
    using ab by (cases b) (auto simp add: prepare_audio_def is_Exception_def)
qed

lemma prepare_audio_rejects:
  assumes u: "audio_calls_uninterrupted W"
    and f: "clip_load_raises W \<noteq> None
       \<or> ((\<exists>e. mp3_write W = WriteRaises e) \<and> (\<exists>e. wav_write W = WriteRaises e))
       \<or> mp3_write W = NotWritten \<or> mp3_write W = Written 0
       \<or> audio_read_raises W \<noteq> None"
  shows "fst (prepare_audio W fs) = Inr None"
proof (cases "clip_load_raises W")
  case (Some e)
  then show ?thesis
    using u by (auto simp add: prepare_audio_def audio_body_def is_Exception_def
        audio_calls_uninterrupted_def)
next
  case None
  show ?thesis
  proof (cases "has_audio W")
    case False
    then show ?thesis using None by (simp add: prepare_audio_def audio_body_def)
  next
    case True
    show ?thesis
    proof (cases "remove_stale W fs")
      case (Inl e)
      then have "e \<noteq> KeyboardInterrupt"
        using remove_stale_cases(1) [OF Inl] u by (auto simp add: audio_calls_uninterrupted_def)
      then show ?thesis
        using None True Inl by (simp add: prepare_audio_def audio_body_def is_Exception_def)
    next
      case (Inr fs1)
      have m: "fs1 Mp3 = None" using remove_stale_cases(2) [OF Inr] .
      obtain ap fs3 where ex: "extract_audio W fs1 = (Inr ap, fs3)"
        using extract_audio_returns [OF u] by blast
      have v: "verify W ap fs3 = Inr None"
      proof -
        from f None consider
          (both) e1 e2 where "mp3_write W = WriteRaises e1" "wav_write W = WriteRaises e2"
          | (missing) "mp3_write W = NotWritten"
          | (empty) "mp3_write W = Written 0"
          | (unreadable) "audio_read_raises W \<noteq> None"
          by blast
        then show ?thesis
        proof cases
          case both
          then have "ap = None" using extract_audio_both_fail [OF u both, of fs1] ex by simp
          then show ?thesis by (simp add: verify_def)
        next
          case missing
          then have "ap = Some Mp3" "fs3 = fs1" using extract_audio_mp3(1) [OF missing, of fs1] ex by simp_all
          then show ?thesis using verify_rejects [OF u, of fs3 Mp3] m by simp
        next
          case empty
          then have "ap = Some Mp3" "fs3 Mp3 = Some 0"
            using extract_audio_mp3(2) [OF empty, of fs1] ex by auto
          then show ?thesis using verify_rejects [OF u, of fs3 Mp3] by simp
        next
          case unreadable
          show ?thesis
          proof (cases ap)
            case None
            then show ?thesis by (simp add: verify_def)
          next
            case (Some a)
            then show ?thesis using verify_rejects [OF u, of fs3 a] unreadable by simp
          qed
        qed
      qed
      show ?thesis
        using None True Inr ex v
        by (simp add: prepare_audio_def audio_body_def guarded_extract_eq [OF u])
    qed
  qed
qed

lemma start_playback_returns:
  assumes "audio_calls_uninterrupted W"
  shows "snd (start_playback W ap) = None"
  using assms
  by (auto simp add: start_playback_def is_Exception_def audio_calls_uninterrupted_def
        split: option.splits)

lemma start_playback_silent:
  assumes "ap = None \<or> playsound_raises W \<noteq> None"
  shows "Play a \<notin> set (fst (start_playback W ap))"
  using assms by (auto simp add: start_playback_def split: option.splits)

lemma teardown_returns:
  assumes "audio_calls_uninterrupted W"
  shows "snd (snd (teardown W ap fs)) = None"
  using assms
  by (auto simp add: teardown_def is_Exception_def audio_calls_uninterrupted_def
        split: option.splits)

lemma teardown_silent: "Play a \<notin> set (fst (teardown W ap fs))"
  by (auto simp add: teardown_def split: option.splits)

lemma loop_events_in_loop:
  assumes "e \<in> set (trace (fst (render_loop T c (initial_lstate W))))"
  shows "in_loop e"
proof -
  have "extends c (initial_lstate W) (fst (render_loop T c (initial_lstate W)))"
    by (rule render_loop_extends)
  then show ?thesis
    using assms unfolding extends_def by (auto simp add: initial_lstate_def)
qed

lemma run_entered:
  assumes u: "audio_calls_uninterrupted W" and o: "cap_opened W"
  obtains ap fs evs tevs fs1 where
    "prepare_audio W (audio_before W) = (Inr ap, fs)"
    "start_playback W ap = (evs, None)"
    "teardown W ap fs = (tevs, fs1, None)"
    "video_to_ascii_cli W p ca =
       \<lparr>events = OpenVideo p # evs
          @ trace (fst (render_loop (time_env W) (columns_of ca) (initial_lstate W))) @ tevs,
        uncaught = None, audio_after = fs1, audio_path = ap,
        loop_result = Some (render_loop (time_env W) (columns_of ca) (initial_lstate W))\<rparr>"
proof -
  obtain ap fs where pa: "prepare_audio W (audio_before W) = (Inr ap, fs)"
    using prepare_audio_returns [OF u] by blast
  obtain evs where sp: "start_playback W ap = (evs, None)"
    using start_playback_returns [OF u, of ap] by (cases "start_playback W ap") auto
  obtain tevs fs1 where td: "teardown W ap fs = (tevs, fs1, None)"
    using teardown_returns [OF u, of ap fs] by (cases "teardown W ap fs") auto
  have "video_to_ascii_cli W p ca =
       \<lparr>events = OpenVideo p # evs
          @ trace (fst (render_loop (time_env W) (columns_of ca) (initial_lstate W))) @ tevs,
        uncaught = None, audio_after = fs1, audio_path = ap,
        loop_result = Some (render_loop (time_env W) (columns_of ca) (initial_lstate W))\<rparr>"
    using pa sp td o
    by (simp add: video_to_ascii_cli_def columns_of_def split: prod.splits)
  then show ?thesis using that pa sp td by blast
qed

text \<open>
  Claim C8. Take a run in which the capture opens and no call of the audio stage is
  interrupted. Whatever else the audio calls do, no exception leaves the function, the
  loop is entered and runs exactly as it does for the same video without an audio track.
  When the clip cannot be loaded, or both the MP3 and the WAV extraction raise, or the
  MP3 file is missing or empty, or the extracted file cannot be read, \<open>audio_path\<close> ends
  up \<open>None\<close>; with no \<open>audio_path\<close>, or when \<open>playsound\<close> raises, no playback is started.
\<close>

theorem audio_failure_is_absorbed:
  assumes u: "audio_calls_uninterrupted W" and o: "cap_opened W"
    and r: "r = video_to_ascii_cli W p columns_arg"
  shows "uncaught r = None
    \<and> loop_result r
        = Some (render_loop (time_env W) (columns_of columns_arg) (initial_lstate W))
    \<and> loop_result r = loop_result (video_to_ascii_cli (W\<lparr>has_audio := False\<rparr>) p columns_arg)
    \<and> (clip_load_raises W \<noteq> None
          \<or> ((\<exists>e. mp3_write W = WriteRaises e) \<and> (\<exists>e. wav_write W = WriteRaises e))
          \<or> mp3_write W = NotWritten \<or> mp3_write W = Written 0
          \<or> audio_read_raises W \<noteq> None
        \<longrightarrow> audio_path r = None)
    \<and> (audio_path r = None \<or> playsound_raises W \<noteq> None
        \<longrightarrow> (\<forall>a. Play a \<notin> set (events r)))"
proof -
  let ?L = "render_loop (time_env W) (columns_of columns_arg) (initial_lstate W)"
  from run_entered [OF u o, of p columns_arg] obtain ap fs evs tevs fs1 where
    pa: "prepare_audio W (audio_before W) = (Inr ap, fs)"
    and sp: "start_playback W ap = (evs, None)"
    and td: "teardown W ap fs = (tevs, fs1, None)"
    and v: "r = \<lparr>events = OpenVideo p # evs @ trace (fst ?L) @ tevs,
        uncaught = None, audio_after = fs1, audio_path = ap, loop_result = Some ?L\<rparr>"
    unfolding r by blast
  have c1: "uncaught r = None" and c2: "loop_result r = Some ?L" and ap: "audio_path r = ap"
    and ev: "events r = OpenVideo p # evs @ trace (fst ?L) @ tevs"
    unfolding v by simp_all
  let ?W' = "W\<lparr>has_audio := False\<rparr>"
  have u': "audio_calls_uninterrupted ?W'" and o': "cap_opened ?W'"
    using u o by (simp_all add: audio_calls_uninterrupted_def)
  have il: "initial_lstate ?W' = initial_lstate W" by (simp add: initial_lstate_def)
  from run_entered [OF u' o', of p columns_arg]
  have c3: "loop_result (video_to_ascii_cli ?W' p columns_arg) = Some ?L"
    by (metis il outcome.select_convs(5) world.select_convs(12) world.surjective world.update_convs(4))
  have c4: "audio_path r = None"
    if "clip_load_raises W \<noteq> None
          \<or> ((\<exists>e. mp3_write W = WriteRaises e) \<and> (\<exists>e. wav_write W = WriteRaises e))
          \<or> mp3_write W = NotWritten \<or> mp3_write W = Written 0
          \<or> audio_read_raises W \<noteq> None"
    using prepare_audio_rejects [OF u that, of "audio_before W"] pa ap by simp
  have c5: "Play a \<notin> set (events r)" if "audio_path r = None \<or> playsound_raises W \<noteq> None" for a
  proof -
    have 1: "Play a \<notin> set evs"
      using start_playback_silent [of ap W a] that ap sp by simp
    have 2: "Play a \<notin> set (trace (fst ?L))"
      using loop_events_in_loop [of "Play a"] by (auto simp add: in_loop_def)
    have 3: "Play a \<notin> set tevs" using teardown_silent [of a W ap fs] td by simp
    show ?thesis unfolding ev using 1 2 3 by simp
  qed
  show ?thesis using c1 c2 c3 c4 c5 by (simp only:) blast
qed

theorem audio_failure_is_absorbed_witness:
  "audio_calls_uninterrupted deaf_world \<and> cap_opened deaf_world
   \<and> mp3_write deaf_world = WriteRaises OtherException
   \<and> wav_write deaf_world = WriteRaises OtherException
   \<and> uncaught (video_to_ascii_cli deaf_world ''v.mp4'' None) = None
   \<and> audio_path (video_to_ascii_cli deaf_world ''v.mp4'' None) = None
   \<and> Play Mp3 \<notin> set (events (video_to_ascii_cli deaf_world ''v.mp4'' None))
   \<and> loop_result (video_to_ascii_cli deaf_world ''v.mp4'' None)
       = loop_result (video_to_ascii_cli (deaf_world\<lparr>has_audio := False\<rparr>) ''v.mp4'' None)
   \<and> snd (the (loop_result (video_to_ascii_cli deaf_world ''v.mp4'' None))) = EndOfStream
   \<and> audio_calls_uninterrupted mute_world \<and> cap_opened mute_world
   \<and> playsound_raises mute_world = Some OtherException
   \<and> uncaught (video_to_ascii_cli mute_world ''v.mp4'' None) = None
   \<and> Play Mp3 \<notin> set (events (video_to_ascii_cli mute_world ''v.mp4'' None))"
proof -
  have u1: "audio_calls_uninterrupted deaf_world" and o1: "cap_opened deaf_world"
    and m1: "mp3_write deaf_world = WriteRaises OtherException"
    and w1: "wav_write deaf_world = WriteRaises OtherException"
    by (simp_all add: deaf_world_def sample_world_def audio_calls_uninterrupted_def)
  have u2: "audio_calls_uninterrupted mute_world" and o2: "cap_opened mute_world"
    and p2: "playsound_raises mute_world = Some OtherException"
    by (simp_all add: mute_world_def sample_world_def audio_calls_uninterrupted_def)
  note t1 = audio_failure_is_absorbed [OF u1 o1 refl, of "''v.mp4''" None]
  note t2 = audio_failure_is_absorbed [OF u2 o2 refl, of "''v.mp4''" None]
  have a1: "uncaught (video_to_ascii_cli deaf_world ''v.mp4'' None) = None" using t1 by blast
  have a2: "audio_path (video_to_ascii_cli deaf_world ''v.mp4'' None) = None"
    using t1 m1 w1 by blast
  have a3: "Play Mp3 \<notin> set (events (video_to_ascii_cli deaf_world ''v.mp4'' None))"
    using t1 a2 by blast
  have a4: "loop_result (video_to_ascii_cli deaf_world ''v.mp4'' None)
       = loop_result (video_to_ascii_cli (deaf_world\<lparr>has_audio := False\<rparr>) ''v.mp4'' None)"
    using t1 by blast
  have a5: "snd (the (loop_result (video_to_ascii_cli deaf_world ''v.mp4'' None))) = EndOfStream"
    by code_simp
  have b1: "uncaught (video_to_ascii_cli mute_world ''v.mp4'' None) = None" using t2 by blast
  have b2: "Play Mp3 \<notin> set (events (video_to_ascii_cli mute_world ''v.mp4'' None))"
    using t2 p2 by blast
  show ?thesis by (intro conjI u1 o1 m1 w1 a1 a2 a3 a4 a5 u2 o2 p2 b1 b2)
qed

section \<open>The exit status (lines 125 to 128 and 233 to 240)\<close>

lemma cli_without_capture:
  assumes u: "audio_calls_uninterrupted W" and o: "\<not> cap_opened W"
  shows "uncaught (video_to_ascii_cli W p ca) = None"
    and "events (video_to_ascii_cli W p ca) = [OpenVideo p, OpenErrorMsg]"
    and "loop_result (video_to_ascii_cli W p ca) = None"
proof -
  obtain ap fs where pa: "prepare_audio W (audio_before W) = (Inr ap, fs)"
    using prepare_audio_returns [OF u] by blast
  show "uncaught (video_to_ascii_cli W p ca) = None"
    and "events (video_to_ascii_cli W p ca) = [OpenVideo p, OpenErrorMsg]"
    and "loop_result (video_to_ascii_cli W p ca) = None"
    using pa o by (simp_all add: video_to_ascii_cli_def)
qed

lemma cli_returns:
  assumes u: "audio_calls_uninterrupted W"
  shows "uncaught (video_to_ascii_cli W p ca) = None"
proof (cases "cap_opened W")
  case True
  from run_entered [OF u True, of p ca] show ?thesis
    by (metis outcome.select_convs(2))
next
  case False
  then show ?thesis using cli_without_capture(1) [OF u] by blast
qed

text \<open>
  Claim C6, amended. With a wrong number of arguments the script prints the usage lines
  and exits with status 1. With one argument, and no interruption before the loop, the
  function returns and the script ends with status 0, however the loop ended (end of
  stream, interruption by the user, or an error in the loop) and also when the video
  cannot be opened: that case prints the error message, never enters the loop, and
  returns like the others.
\<close>

theorem exit_status_of_script:
  "(length argv \<noteq> 2 \<longrightarrow> main W argv = (Exit 1, [UsageMsg]))
   \<and> (length argv = 2 \<and> audio_calls_uninterrupted W \<longrightarrow> fst (main W argv) = Exit 0)
   \<and> (length argv = 2 \<and> audio_calls_uninterrupted W \<and> \<not> cap_opened W \<longrightarrow>
        snd (main W argv) = [OpenVideo (argv ! 1), OpenErrorMsg])
   \<and> (length argv = 2 \<and> audio_calls_uninterrupted W \<and> cap_opened W \<longrightarrow>
        loop_result (video_to_ascii_cli W (argv ! 1) None)
          = Some (render_loop (time_env W) 80 (initial_lstate W)))"
proof -
  have a: "main W argv = (Exit 1, [UsageMsg])" if "length argv \<noteq> 2"
    using that by (simp add: main_def)
  have b: "fst (main W argv) = Exit 0" if "length argv = 2" "audio_calls_uninterrupted W"
    using that cli_returns [OF that(2), of "argv ! 1" None] by (simp add: main_def Let_def)
  have c: "snd (main W argv) = [OpenVideo (argv ! 1), OpenErrorMsg]"
    if "length argv = 2" "audio_calls_uninterrupted W" "\<not> cap_opened W"
    using that cli_without_capture [OF that(2) that(3), of "argv ! 1" None]
    by (simp add: main_def Let_def)
  have d: "loop_result (video_to_ascii_cli W (argv ! 1) None)
          = Some (render_loop (time_env W) 80 (initial_lstate W))"
    if "audio_calls_uninterrupted W" "cap_opened W"
  proof -
    from run_entered [OF that, of "argv ! 1" None]
    have "loop_result (video_to_ascii_cli W (argv ! 1) None)
        = Some (render_loop (time_env W) (columns_of None) (initial_lstate W))"
      by (metis outcome.select_convs(5))
    then show ?thesis by (simp add: columns_of_def)
  qed
  show ?thesis using a b c d by blast
qed

theorem exit_status_of_script_witness:
  "length [''acvp.py''] \<noteq> 2
   \<and> main sample_world [''acvp.py''] = (Exit 1, [UsageMsg])
   \<and> length [''acvp.py'', ''v.mp4''] = 2
   \<and> audio_calls_uninterrupted sample_world \<and> cap_opened sample_world
   \<and> fst (main sample_world [''acvp.py'', ''v.mp4'']) = Exit 0
   \<and> snd (the (loop_result (video_to_ascii_cli sample_world ''v.mp4'' None))) = EndOfStream
   \<and> audio_calls_uninterrupted interrupted_world
   \<and> fst (main interrupted_world [''acvp.py'', ''v.mp4'']) = Exit 0
   \<and> snd (the (loop_result (video_to_ascii_cli interrupted_world ''v.mp4'' None))) = Interrupted
   \<and> audio_calls_uninterrupted closed_world \<and> cap_opened closed_world = False
   \<and> main closed_world [''acvp.py'', ''v.mp4''] = (Exit 0, [OpenVideo ''v.mp4'', OpenErrorMsg])"
proof -
  have l1: "length [''acvp.py''] \<noteq> 2" and l2: "length [''acvp.py'', ''v.mp4''] = 2" by simp_all
  have u1: "audio_calls_uninterrupted sample_world" and o1: "cap_opened sample_world"
    by (simp_all add: sample_world_def audio_calls_uninterrupted_def)
  have u2: "audio_calls_uninterrupted interrupted_world"
    by (simp add: interrupted_world_def sample_world_def audio_calls_uninterrupted_def)
  have u3: "audio_calls_uninterrupted closed_world" and o3: "cap_opened closed_world = False"
    by (simp_all add: closed_world_def sample_world_def audio_calls_uninterrupted_def)
  have a: "main sample_world [''acvp.py''] = (Exit 1, [UsageMsg])"
    using exit_status_of_script [of "[''acvp.py'']" sample_world] l1 by blast
  have b: "fst (main sample_world [''acvp.py'', ''v.mp4'']) = Exit 0"
    using exit_status_of_script [of "[''acvp.py'', ''v.mp4'']" sample_world] l2 u1 by blast
  have b': "snd (the (loop_result (video_to_ascii_cli sample_world ''v.mp4'' None))) = EndOfStream"
    by code_simp
  have c: "fst (main interrupted_world [''acvp.py'', ''v.mp4'']) = Exit 0"
    using exit_status_of_script [of "[''acvp.py'', ''v.mp4'']" interrupted_world] l2 u2 by blast
  have c': "snd (the (loop_result (video_to_ascii_cli interrupted_world ''v.mp4'' None))) = Interrupted"
    by code_simp
  have d1: "fst (main closed_world [''acvp.py'', ''v.mp4'']) = Exit 0"
    and d2: "snd (main closed_world [''acvp.py'', ''v.mp4''])
        = [OpenVideo ([''acvp.py'', ''v.mp4''] ! 1), OpenErrorMsg]"
    using exit_status_of_script [of "[''acvp.py'', ''v.mp4'']" closed_world] l2 u3 o3 by blast+
  have d: "main closed_world [''acvp.py'', ''v.mp4''] = (Exit 0, [OpenVideo ''v.mp4'', OpenErrorMsg])"
    using d1 d2 by (simp add: prod_eq_iff)
  show ?thesis by (intro conjI l1 a l2 u1 o1 b b' u2 c c' u3 o3 d)
qed

text \<open>
  The claim as stated has a status other than 0 when the video cannot be opened. Line
  128 is a plain \<open>return\<close>, and the script has no \<open>sys.exit\<close> but the one for the usage
  error.
\<close>

theorem open_failure_exits_zero:
  "cap_opened closed_world = False
   \<and> fst (main closed_world [''acvp.py'', ''missing.mp4'']) = Exit 0
   \<and> snd (main closed_world [''acvp.py'', ''missing.mp4''])
       = [OpenVideo ''missing.mp4'', OpenErrorMsg]"
  by code_simp

end
